theory Spec2Isabelle
  imports Main "HOL-Library.Sublist"
begin

section \<open>The HN /newest collector (index.js)\<close>

text \<open>
  A shallow embedding of \<^verbatim>\<open>src/index.js\<close>: the argument parser \<^verbatim>\<open>parseArgs\<close>, the in-page
  extraction of \<^verbatim>\<open>scrapePage\<close>, and the collection loop of the top-level async function with
  the outcome it reports.

  Conventions of the model.
  \<^item> JavaScript strings are \<open>string\<close>s over Isabelle's 8-bit characters, read as the code
    units U+0000 to U+00FF. A string is falsy exactly when it is empty.
  \<^item> JavaScript numbers are doubles. The program only ever holds integer-valued ones,
    \<open>NaN\<close> and the infinities: they are the type \<open>number\<close>, whose \<open>Num i\<close> is the double
    that holds the integer \<open>i\<close> (\<open>-0\<close> is not told from \<open>0\<close>: both are falsy and no other
    operation of the program tells them apart). Turning an integer into a double rounds it
    to 53 significant bits, ties to even, and overflows to an infinity. Array lengths are
    \<open>nat\<close>; the counter \<open>pages\<close> is a \<open>nat\<close> that \<^verbatim>\<open>pages++\<close> rounds as a double, so it stays
    at \<open>2 ^ 53\<close> once there. The limits of the engine on the size of arrays and sets are
    not modelled.
  \<^item> The browser is a \<open>world\<close>: what \<^verbatim>\<open>page.goto\<close> and \<^verbatim>\<open>page.reload\<close> leave in the page
    for the extraction to read, or the exception thrown on the way (by the navigation or by
    the extraction after it), as a function of the number of navigations made before and of
    the URL. The calls made to the browser are recorded in the state's \<open>trace\<close>.
  \<^item> The loop need not end: \<open>collect\<close> returns \<open>None\<close> when it runs for ever.
\<close>

subsection \<open>Strings\<close>

definition is_ws :: "char \<Rightarrow> bool" where
  \<comment> \<open>White space and line terminators of ECMAScript within U+0000..U+00FF:
      TAB, LF, VT, FF, CR, SP, NBSP.\<close>
  "is_ws c = ((of_char c :: nat) \<in> {9, 10, 11, 12, 13, 32, 160})"

definition trim :: "string \<Rightarrow> string" where
  \<comment> \<open>\<^verbatim>\<open>String.prototype.trim\<close>\<close>
  "trim s = rev (dropWhile is_ws (rev (dropWhile is_ws s)))"

definition startsWith :: "string \<Rightarrow> string \<Rightarrow> bool" where
  \<comment> \<open>\<^verbatim>\<open>s.startsWith(p)\<close>\<close>
  "startsWith s p = (take (length p) s = p)"

fun split_on :: "char \<Rightarrow> string \<Rightarrow> string list" where
  \<comment> \<open>\<^verbatim>\<open>s.split(c)\<close> for a one-character separator; never the empty list\<close>
  "split_on c [] = [[]]"
| "split_on c (x # xs) =
     (if x = c then [] # split_on c xs
      else (case split_on c xs of
              [] \<Rightarrow> [[x]]
            | p # ps \<Rightarrow> (x # p) # ps))"

subsection \<open>Numbers\<close>

datatype number = NaN | Num int | PosInf | NegInf

function bitlen :: "int \<Rightarrow> nat" where
  \<comment> \<open>the number of binary digits of a positive integer\<close>
  "bitlen n = (if n \<le> 0 then 0 else Suc (bitlen (n div 2)))"
  by pat_completeness auto

termination bitlen
  by (relation "measure nat") auto

declare bitlen.simps [simp del]

definition round53 :: "int \<Rightarrow> int" where
  \<comment> \<open>for \<open>n \<ge> 0\<close>: the nearest integer with at most 53 significant bits, ties to the even
      one\<close>
  "round53 n =
     (if n < 2 ^ 53 then n
      else (let e = bitlen n - 53; q = n div 2 ^ e; r = n mod 2 ^ e; h = 2 ^ (e - 1)
            in (if h < r \<or> (r = h \<and> odd q) then q + 1 else q) * 2 ^ e))"

definition to_double :: "int \<Rightarrow> number" where
  \<comment> \<open>the double nearest to an integer; \<open>2 ^ 1024\<close> is out of range\<close>
  "to_double i =
     (let m = round53 \<bar>i\<bar>
      in if 2 ^ 1024 \<le> m then (if i < 0 then NegInf else PosInf)
         else Num (if i < 0 then - m else m))"

fun num_lt :: "number \<Rightarrow> number \<Rightarrow> bool" where
  \<comment> \<open>\<^verbatim>\<open>x < y\<close>: false when either is \<open>NaN\<close>\<close>
  "num_lt (Num a) (Num b) = (a < b)"
| "num_lt (Num a) PosInf = True"
| "num_lt NegInf (Num b) = True"
| "num_lt NegInf PosInf = True"
| "num_lt _ _ = False"

fun num_ge :: "number \<Rightarrow> number \<Rightarrow> bool" where
  \<comment> \<open>\<^verbatim>\<open>x >= y\<close>: false when either is \<open>NaN\<close>\<close>
  "num_ge NaN _ = False"
| "num_ge _ NaN = False"
| "num_ge x y = (\<not> num_lt x y)"

definition math_max :: "number \<Rightarrow> number \<Rightarrow> number" where
  \<comment> \<open>\<^verbatim>\<open>Math.max(x, y)\<close>\<close>
  "math_max x y = (if x = NaN \<or> y = NaN then NaN else if num_lt x y then y else x)"

definition or_num :: "number \<Rightarrow> number \<Rightarrow> number" where
  \<comment> \<open>\<^verbatim>\<open>x || d\<close> on numbers: \<open>NaN\<close> and 0 are falsy\<close>
  "or_num x d = (if x = NaN \<or> x = Num 0 then d else x)"

definition incr :: "nat \<Rightarrow> nat" where
  \<comment> \<open>\<^verbatim>\<open>p++\<close> on a counter: the double nearest to \<open>p + 1\<close>\<close>
  "incr p = nat (round53 (int p + 1))"

definition is_digit :: "char \<Rightarrow> bool" where
  "is_digit c = (48 \<le> (of_char c :: nat) \<and> (of_char c :: nat) \<le> 57)"

definition digit_val :: "char \<Rightarrow> int" where
  "digit_val c = int (of_char c) - 48"

definition digits_val :: "string \<Rightarrow> int" where
  "digits_val z = foldl (\<lambda>acc c. 10 * acc + digit_val c) 0 z"

definition parseInt :: "string option \<Rightarrow> number" where
  \<comment> \<open>\<^verbatim>\<open>parseInt(x, 10)\<close>: leading white space is skipped, one sign is read, then the longest
      run of decimal digits; no digit gives \<open>NaN\<close>, else the value as a double (rounded
      exactly; past 20 significant digits the language lets an engine round the digits that
      follow less precisely). The argument \<^verbatim>\<open>undefined\<close> (\<open>None\<close>) is converted to the
      string \<^verbatim>\<open>"undefined"\<close>, which has no digit.\<close>
  "parseInt x =
     (case x of
        None \<Rightarrow> NaN
      | Some s \<Rightarrow>
          (let s1 = dropWhile is_ws s;
               neg = (case s1 of [] \<Rightarrow> False | c # _ \<Rightarrow> c = CHR ''-'');
               s2 = (case s1 of
                       [] \<Rightarrow> []
                     | c # t \<Rightarrow> if c = CHR ''-'' \<or> c = CHR ''+'' then t else s1);
               z = takeWhile is_digit s2
           in if z = [] then NaN
              else to_double ((if neg then - 1 else 1) * digits_val z)))"

subsection \<open>parseArgs\<close>

record args =
  count :: number
  head :: bool
  json :: bool
  maxPages :: number

definition MAX_PAGES_DEFAULT :: number where
  "MAX_PAGES_DEFAULT = Num 15"

definition field1 :: "string \<Rightarrow> string option" where
  \<comment> \<open>\<^verbatim>\<open>a.split('=')[1]\<close>, \<^verbatim>\<open>undefined\<close> when there is no second piece\<close>
  "field1 a = (case split_on (CHR ''='') a of
                 _ # p # _ \<Rightarrow> Some p
               | _ \<Rightarrow> None)"

definition parseArg :: "args \<Rightarrow> string \<Rightarrow> args" where
  \<comment> \<open>the body of the \<^verbatim>\<open>for (const a of argv.slice(2))\<close> loop\<close>
  "parseArg a x =
     (if startsWith x ''--count='' then
        a\<lparr>count := math_max (Num 1) (or_num (parseInt (field1 x)) (Num 100))\<rparr>
      else if x = ''--head'' \<or> x = ''--headed'' then a\<lparr>head := True\<rparr>
      else if x = ''--json'' then a\<lparr>json := True\<rparr>
      else if startsWith x ''--max-pages='' then
        a\<lparr>maxPages := math_max (Num 1) (or_num (parseInt (field1 x)) MAX_PAGES_DEFAULT)\<rparr>
      else a)"

definition parseArgs :: "string list \<Rightarrow> args" where
  "parseArgs argv =
     foldl parseArg
       \<lparr>count = Num 100, head = False, json = False, maxPages = MAX_PAGES_DEFAULT\<rparr>
       (drop 2 argv)"

subsection \<open>The page and scrapePage\<close>

text \<open>
  What the extraction program reads of the document: for every \<^verbatim>\<open>tr.athing\<close> row its \<^verbatim>\<open>id\<close>
  attribute (\<open>None\<close> when absent), the text of its \<^verbatim>\<open>span.titleline a\<close> element (\<open>None\<close> when
  there is no such element) and the \<^verbatim>\<open>span.age\<close> element of the next sibling (\<open>None\<close> when
  there is no sibling or no such element in it), with its \<^verbatim>\<open>title\<close> attribute and its text;
  and the \<^verbatim>\<open>a.morelink\<close> element (\<open>None\<close> when absent) with its \<^verbatim>\<open>href\<close> attribute.
\<close>

record age_el =
  age_title :: "string option"
  age_text :: string

record row =
  row_id :: "string option"
  titleEl :: "string option"
  ageEl :: "age_el option"

record document =
  rows :: "row list"
  moreEl :: "string option option"

record entry =
  id_of :: string
  title :: string
  iso :: string

record scrape =
  items :: "entry list"
  moreHref :: "string option"

definition extract_row :: "row \<Rightarrow> entry option" where
  \<comment> \<open>one iteration of \<^verbatim>\<open>for (const tr of rows)\<close>: the entry pushed, if any\<close>
  "extract_row tr =
     (let i = (case row_id tr of None \<Rightarrow> [] | Some v \<Rightarrow> v);
          t = (case titleEl tr of None \<Rightarrow> [] | Some x \<Rightarrow> trim x);
          isoAttr = (case ageEl tr of
                       None \<Rightarrow> []
                     | Some a \<Rightarrow> (case age_title a of None \<Rightarrow> [] | Some v \<Rightarrow> v));
          ts = (if isoAttr \<noteq> [] then isoAttr
                else (case ageEl tr of None \<Rightarrow> [] | Some a \<Rightarrow> trim (age_text a)))
      in if i \<noteq> [] \<and> t \<noteq> [] \<and> ts \<noteq> []
         then Some \<lparr>id_of = i, title = t, iso = ts\<rparr>
         else None)"

fun extract_rows :: "row list \<Rightarrow> entry list" where
  "extract_rows [] = []"
| "extract_rows (tr # trs) =
     (case extract_row tr of
        None \<Rightarrow> extract_rows trs
      | Some e \<Rightarrow> e # extract_rows trs)"

definition scrapePage :: "document \<Rightarrow> scrape" where
  \<comment> \<open>The \<^verbatim>\<open>waitForSelector\<close> before the extraction has its exception swallowed and
      changes nothing: the extraction runs on whatever the page holds.\<close>
  "scrapePage d =
     \<lparr>items = extract_rows (rows d),
      moreHref = (case moreEl d of None \<Rightarrow> None | Some h \<Rightarrow> h)\<rparr>"

subsection \<open>The browser\<close>

datatype error = Thrown string

record world =
  goto_doc :: "nat \<Rightarrow> string \<Rightarrow> error + document"
  reload_doc :: "nat \<Rightarrow> string \<Rightarrow> error + document"

datatype event = Goto string | Reload

definition gotos :: "event list \<Rightarrow> nat" where
  \<comment> \<open>the number of navigations in a sequence of calls\<close>
  "gotos evs = length (filter (\<lambda>e. e \<noteq> Reload) evs)"

subsection \<open>The collection loop\<close>

definition BASE :: string where
  "BASE = ''https://news.ycombinator.com''"

definition START :: string where
  "START = BASE @ ''/newest''"

record state =
  seen :: "string set"
  collected :: "entry list"
  pages :: nat
  url :: string
  trace :: "event list"

definition init_state :: state where
  "init_state = \<lparr>seen = {}, collected = [], pages = 0, url = START, trace = []\<rparr>"

definition fetch_page :: "world \<Rightarrow> nat \<Rightarrow> string \<Rightarrow> (error + scrape) \<times> event list" where
  \<comment> \<open>\<^verbatim>\<open>page.goto\<close>, the first scrape, and the soft reload with its scrape when the first
      one found nothing; with the browser calls made\<close>
  "fetch_page w n u =
     (case goto_doc w n u of
        Inl e \<Rightarrow> (Inl e, [Goto u])
      | Inr d \<Rightarrow>
          (let r = scrapePage d in
           if items r = [] then
             (case reload_doc w n u of
                Inl e \<Rightarrow> (Inl e, [Goto u, Reload])
              | Inr d' \<Rightarrow> (Inr (scrapePage d'), [Goto u, Reload]))
           else (Inr r, [Goto u])))"

fun merge :: "number \<Rightarrow> entry list \<Rightarrow> state \<Rightarrow> state" where
  \<comment> \<open>\<^verbatim>\<open>for (const it of items)\<close>, with its \<^verbatim>\<open>break\<close>\<close>
  "merge want [] s = s"
| "merge want (it # its) s =
     (if id_of it \<notin> seen s then
        (let s' = s\<lparr>seen := insert (id_of it) (seen s), collected := collected s @ [it]\<rparr>
         in if num_ge (Num (int (length (collected s')))) want then s'
            else merge want its s')
      else merge want its s)"

definition next_url :: "string \<Rightarrow> string" where
  "next_url h =
     (if startsWith h ''http'' then h
      else BASE @ ''/'' @ (case h of [] \<Rightarrow> [] | c # t \<Rightarrow> if c = CHR ''/'' then t else h))"

datatype step = Stop "error option" state | Next state

definition loop_body :: "world \<Rightarrow> number \<Rightarrow> state \<Rightarrow> step" where
  \<comment> \<open>one iteration of the \<^verbatim>\<open>while\<close> loop\<close>
  "loop_body w want s =
     (case fetch_page w (gotos (trace s)) (url s) of
        (Inl e, evs) \<Rightarrow> Stop (Some e) (s\<lparr>trace := trace s @ evs\<rparr>)
      | (Inr r, evs) \<Rightarrow>
          (let s1 = merge want (items r) (s\<lparr>trace := trace s @ evs\<rparr>);
               s2 = s1\<lparr>pages := incr (pages s1)\<rparr>
           in if num_ge (Num (int (length (collected s2)))) want then Stop None s2
              else (case moreHref r of
                      None \<Rightarrow> Stop None s2
                    | Some h \<Rightarrow>
                        if h = [] then Stop None s2
                        else Next (s2\<lparr>url := next_url h\<rparr>))))"

definition loop_cond :: "number \<Rightarrow> number \<Rightarrow> state \<Rightarrow> bool" where
  "loop_cond want mp s =
     (num_lt (Num (int (length (collected s)))) want \<and> num_lt (Num (int (pages s))) mp)"

partial_function (option) collect ::
  "world \<Rightarrow> number \<Rightarrow> number \<Rightarrow> state \<Rightarrow> (error option \<times> state) option" where
  "collect w want mp s =
     (if loop_cond want mp s then
        (case loop_body w want s of
           Stop e s' \<Rightarrow> Some (e, s')
         | Next s' \<Rightarrow> collect w want mp s')
      else Some (None, s))"

declare collect.simps [code]

subsection \<open>The outcome\<close>

record outcome =
  ok :: bool
  requested :: number
  n_collected :: nat
  n_pages :: nat
  n_maxPages :: number
  out_items :: "entry list"
  err :: "string option"
  dups :: "int option"
  exitCode :: int

definition slice0 :: "'a list \<Rightarrow> number \<Rightarrow> 'a list" where
  \<comment> \<open>\<^verbatim>\<open>xs.slice(0, e)\<close>: a negative end counts from the end of the array\<close>
  "slice0 xs e =
     (case e of
        NaN \<Rightarrow> []
      | Num i \<Rightarrow> take (nat (if i < 0 then int (length xs) + i else i)) xs
      | PosInf \<Rightarrow> xs
      | NegInf \<Rightarrow> [])"

definition report :: "number \<Rightarrow> number \<Rightarrow> error option \<times> state \<Rightarrow> outcome" where
  \<comment> \<open>What is printed and the exit code. \<open>out_items\<close> are the items of the JSON record (the
      numbered lines of the text rendering are the same items; none are printed there after
      an exception); \<open>dups\<close> is the number after \<^verbatim>\<open>Dups:\<close> in the text rendering's summary.\<close>
  "report want mp r =
     (case r of
        (None, s) \<Rightarrow>
          (let good = num_ge (Num (int (length (collected s)))) want in
           \<lparr>ok = good, requested = want, n_collected = length (collected s),
            n_pages = pages s, n_maxPages = mp,
            out_items = slice0 (collected s) want, err = None,
            dups = Some (int (card (seen s)) - int (length (collected s))),
            exitCode = (if good then 0 else 1)\<rparr>)
      | (Some (Thrown m), s) \<Rightarrow>
          \<lparr>ok = False, requested = want, n_collected = length (collected s),
           n_pages = pages s, n_maxPages = mp,
           out_items = collected s, err = Some m,
           dups = None, exitCode = 1\<rparr>)"

definition run :: "world \<Rightarrow> number \<Rightarrow> number \<Rightarrow> outcome option" where
  \<comment> \<open>the body of the top-level function after \<^verbatim>\<open>parseArgs\<close>: \<open>None\<close> when the loop never
      ends, so that nothing is printed\<close>
  "run w want mp = map_option (report want mp) (collect w want mp init_state)"

definition main :: "world \<Rightarrow> string list \<Rightarrow> outcome option" where
  "main w argv = (let a = parseArgs argv in run w (count a) (maxPages a))"

subsection \<open>Specification-side notions and example pages\<close>

definition dedup_inv :: "state \<Rightarrow> bool" where
  \<comment> \<open>\<open>seen\<close> holds exactly the ids of \<open>collected\<close>, each once\<close>
  "dedup_inv s = (seen s = id_of ` set (collected s) \<and> distinct (map id_of (collected s)))"

fun fresh :: "string set \<Rightarrow> entry list \<Rightarrow> entry list" where
  \<comment> \<open>the entries of a list whose id is neither in \<open>S\<close> nor on an earlier entry\<close>
  "fresh S [] = []"
| "fresh S (x # xs) =
     (if id_of x \<in> S then fresh S xs else x # fresh (insert (id_of x) S) xs)"

fun first_seen :: "entry list \<Rightarrow> entry list" where
  \<comment> \<open>first-seen order: every entry that is the first of its id, in the order of the list\<close>
  "first_seen [] = []"
| "first_seen (x # xs) = x # first_seen (filter (\<lambda>y. id_of y \<noteq> id_of x) xs)"

fun crawl :: "world \<Rightarrow> nat \<Rightarrow> nat \<Rightarrow> string \<Rightarrow> entry list list \<times> error option" where
  \<comment> \<open>What the source supplies within \<open>k\<close> page visits, whatever the count asked for: the
      entry lists of the pages reached from page number \<open>n\<close> at URL \<open>u\<close> by following the
      next-page links, each page read as the loop reads it (with its soft reload), up to the
      first page that fails to load, and that failure.\<close>
  "crawl w 0 n u = ([], None)"
| "crawl w (Suc k) n u =
     (case fst (fetch_page w n u) of
        Inl e \<Rightarrow> ([], Some e)
      | Inr r \<Rightarrow>
          (case moreHref r of
             None \<Rightarrow> ([items r], None)
           | Some h \<Rightarrow>
               if h = [] then ([items r], None)
               else (case crawl w k (Suc n) (next_url h) of
                       (ps, e) \<Rightarrow> (items r # ps, e))))"

definition source_entries :: "world \<Rightarrow> nat \<Rightarrow> entry list" where
  \<comment> \<open>the entries of the pages the source supplies within \<open>k\<close> pages, in page order\<close>
  "source_entries w k = concat (fst (crawl w k 0 START))"

definition page_test :: "number \<Rightarrow> nat \<Rightarrow> bool" where
  \<comment> \<open>\<^verbatim>\<open>pages < maxPages\<close> at a value of the counter\<close>
  "page_test mp p = num_lt (Num (int p)) mp"

definition bounded_budget :: "number \<Rightarrow> bool" where
  \<comment> \<open>a budget that the page counter can reach: not above \<open>2 ^ 53\<close>\<close>
  "bounded_budget mp =
     (case mp of NaN \<Rightarrow> True | Num m \<Rightarrow> m \<le> 2 ^ 53 | PosInf \<Rightarrow> False | NegInf \<Rightarrow> True)"

definition within_budget :: "number \<Rightarrow> nat \<Rightarrow> bool" where
  \<comment> \<open>the page test lets a run make \<open>k\<close> iterations from the start\<close>
  "within_budget mp k = (\<forall>j\<in>{0..<k}. page_test mp ((incr ^^ j) 0))"

definition stops_within :: "world \<Rightarrow> int \<Rightarrow> number \<Rightarrow> state \<Rightarrow> nat \<Rightarrow> bool" where
  \<comment> \<open>The loop from \<open>s\<close> is over after at most \<open>k\<close> iterations: the page test lets it make
      \<open>k\<close> iterations, and in the \<open>k\<close> pages to come the count is reached, or a page fails
      to load, or the next-page links end, or else the page test fails after them.\<close>
  "stops_within w n mp s k =
     ((\<forall>j\<in>{0..<k}. page_test mp ((incr ^^ j) (pages s))) \<and>
      (case crawl w k (gotos (trace s)) (url s) of
         (ps, e) \<Rightarrow>
           n \<le> int (length (collected s @ fresh (seen s) (concat ps))) \<or>
           e \<noteq> None \<or> length ps < k \<or>
           \<not> page_test mp ((incr ^^ k) (pages s))))"

definition never_stops :: "world \<Rightarrow> int \<Rightarrow> bool" where
  \<comment> \<open>a source that meets no stopping condition of its own: every page loads and links to a
      next page, and no number of pages holds \<open>want\<close> distinct ids\<close>
  "never_stops w want =
     (\<forall>k. length (fst (crawl w k 0 START)) = k \<and>
          int (length (first_seen (concat (fst (crawl w k 0 START))))) < want)"

definition collect_spec ::
  "world \<Rightarrow> int \<Rightarrow> number \<Rightarrow> state \<Rightarrow> entry list \<Rightarrow> error option \<Rightarrow> nat \<Rightarrow> bool" where
  \<comment> \<open>the result of the loop from \<open>s\<close>, given the stream \<open>all\<close> of entries in first-seen
      order, the failure \<open>e\<close> that ends the stream, and the value \<open>p\<close> of the page counter
      after it\<close>
  "collect_spec w n mp s all e p =
     (\<exists>s'. collect w (Num n) mp s
             = Some (if n \<le> int (length all) then None else e, s') \<and>
           collected s' = take (nat n) all \<and>
           (int (length all) < n \<longrightarrow> pages s' = p))"

inductive loop_head :: "world \<Rightarrow> number \<Rightarrow> number \<Rightarrow> state \<Rightarrow> bool" for w want mp where
  \<comment> \<open>the states in which a run tests the \<^verbatim>\<open>while\<close> condition\<close>
  start: "loop_head w want mp init_state"
| again: "\<lbrakk>loop_head w want mp s; loop_cond want mp s; loop_body w want s = Next s'\<rbrakk>
          \<Longrightarrow> loop_head w want mp s'"

definition ends_at ::
  "world \<Rightarrow> number \<Rightarrow> number \<Rightarrow> state \<Rightarrow> error option \<times> state \<Rightarrow> bool" where
  \<comment> \<open>a run is over at the loop head \<open>h\<close> with the result \<open>r\<close>: the loop test fails there,
      or the iteration from there breaks out of the loop or throws\<close>
  "ends_at w want mp h r =
     (if loop_cond want mp h then loop_body w want h = Stop (fst r) (snd r)
      else r = (None, h))"

inductive visited :: "world \<Rightarrow> number \<Rightarrow> number \<Rightarrow> state \<Rightarrow> bool" for w want mp where
  \<comment> \<open>Every state a run goes through: at the loop head; after the page is fetched; in
      the merge loop after \<open>k\<close> items (or after its \<^verbatim>\<open>break\<close>); between \<^verbatim>\<open>seen.add\<close> and
      \<^verbatim>\<open>collected.push\<close>; after \<^verbatim>\<open>pages++\<close>. The state after the URL is set is the next
      loop head.\<close>
  at_head: "loop_head w want mp s \<Longrightarrow> visited w want mp s"
| fetched: "\<lbrakk>loop_head w want mp s; loop_cond want mp s;
             fetch_page w (gotos (trace s)) (url s) = (x, evs)\<rbrakk>
            \<Longrightarrow> visited w want mp (s\<lparr>trace := trace s @ evs\<rparr>)"
| merging: "\<lbrakk>loop_head w want mp s; loop_cond want mp s;
             fetch_page w (gotos (trace s)) (url s) = (Inr r, evs)\<rbrakk>
            \<Longrightarrow> visited w want mp
                  (merge want (take k (items r)) (s\<lparr>trace := trace s @ evs\<rparr>))"
| adding: "\<lbrakk>loop_head w want mp s; loop_cond want mp s;
            fetch_page w (gotos (trace s)) (url s) = (Inr r, evs);
            k < length (items r);
            s1 = merge want (take k (items r)) (s\<lparr>trace := trace s @ evs\<rparr>);
            num_lt (Num (int (length (collected s1)))) want;
            id_of (items r ! k) \<notin> seen s1\<rbrakk>
           \<Longrightarrow> visited w want mp (s1\<lparr>seen := insert (id_of (items r ! k)) (seen s1)\<rparr>)"
| counted: "\<lbrakk>loop_head w want mp s; loop_cond want mp s;
             fetch_page w (gotos (trace s)) (url s) = (Inr r, evs);
             s1 = merge want (items r) (s\<lparr>trace := trace s @ evs\<rparr>)\<rbrakk>
            \<Longrightarrow> visited w want mp (s1\<lparr>pages := incr (pages s1)\<rparr>)"

fun well_paged :: "event list \<Rightarrow> bool" where
  \<comment> \<open>a sequence of page visits, each one \<^verbatim>\<open>goto\<close> followed by at most one \<^verbatim>\<open>reload\<close>\<close>
  "well_paged [] = True"
| "well_paged (Goto u # Reload # evs) = well_paged evs"
| "well_paged (Goto u # evs) = well_paged evs"
| "well_paged (Reload # evs) = False"

definition step_state :: "step \<Rightarrow> state" where
  "step_state r = (case r of Stop e s \<Rightarrow> s | Next s \<Rightarrow> s)"

definition step_thrown :: "step \<Rightarrow> bool" where
  "step_thrown r = (case r of Stop e s \<Rightarrow> e \<noteq> None | Next s \<Rightarrow> False)"

definition served :: "world \<Rightarrow> document set" where
  \<comment> \<open>the documents the browser can show\<close>
  "served w = {d. \<exists>n u. goto_doc w n u = Inr d \<or> reload_doc w n u = Inr d}"

definition yielded_ids :: "world \<Rightarrow> string set" where
  \<comment> \<open>the ids of the entries the parser yields for the rows of those documents\<close>
  "yielded_ids w =
     {i. \<exists>d tr e. d \<in> served w \<and> tr \<in> set (rows d) \<and> extract_row tr = Some e \<and> id_of e = i}"

definition raw_id :: "row \<Rightarrow> string" where
  \<comment> \<open>the row's id: its \<^verbatim>\<open>id\<close> attribute, empty when absent\<close>
  "raw_id tr = (case row_id tr of None \<Rightarrow> [] | Some v \<Rightarrow> v)"

definition raw_title :: "row \<Rightarrow> string" where
  \<comment> \<open>the row's title: the text of its title element, empty when absent\<close>
  "raw_title tr = (case titleEl tr of None \<Rightarrow> [] | Some x \<Rightarrow> x)"

definition raw_timestamp :: "row \<Rightarrow> string" where
  \<comment> \<open>the row's timestamp: the age element's \<^verbatim>\<open>title\<close> attribute, its text when the
      attribute is absent or empty\<close>
  "raw_timestamp tr =
     (case ageEl tr of
        None \<Rightarrow> []
      | Some a \<Rightarrow> (case age_title a of
                     None \<Rightarrow> age_text a
                   | Some v \<Rightarrow> if v = [] then age_text a else v))"

definition valid_after_trim :: "row \<Rightarrow> bool" where
  \<comment> \<open>id, title and timestamp all non-empty after trimming\<close>
  "valid_after_trim tr =
     (trim (raw_id tr) \<noteq> [] \<and> trim (raw_title tr) \<noteq> [] \<and> trim (raw_timestamp tr) \<noteq> [])"

definition stamp :: "row \<Rightarrow> string" where
  \<comment> \<open>the timestamp as the parser takes it: the attribute as it is, else the text trimmed\<close>
  "stamp tr =
     (case ageEl tr of
        None \<Rightarrow> []
      | Some a \<Rightarrow> (case age_title a of
                     None \<Rightarrow> trim (age_text a)
                   | Some v \<Rightarrow> if v = [] then trim (age_text a) else v))"

definition mk_row :: "string \<Rightarrow> row" where
  \<comment> \<open>a well-formed story row with the given id\<close>
  "mk_row i =
     \<lparr>row_id = Some i, titleEl = Some (''Story '' @ i),
      ageEl = Some \<lparr>age_title = Some ''2024-05-01T10:00:00'', age_text = ''1 hour ago''\<rparr>\<rparr>"

definition mk_doc :: "string list \<Rightarrow> string option \<Rightarrow> document" where
  \<comment> \<open>a page with story rows of the given ids and, possibly, a More link\<close>
  "mk_doc ids href = \<lparr>rows = map mk_row ids, moreEl = map_option Some href\<rparr>"

definition pages_world :: "document list \<Rightarrow> world" where
  \<comment> \<open>a site whose \<open>n\<close>-th page visit shows the \<open>n\<close>-th document, before and after a reload;
      navigation fails beyond the last\<close>
  "pages_world ds =
     \<lparr>goto_doc = (\<lambda>n u. if n < length ds then Inr (ds ! n)
                          else Inl (Thrown ''net::ERR_FAILED'')),
      reload_doc = (\<lambda>n u. if n < length ds then Inr (ds ! n)
                            else Inl (Thrown ''net::ERR_FAILED''))\<rparr>"

definition dup_world :: world where
  \<comment> \<open>two pages that overlap in story 2\<close>
  "dup_world =
     pages_world [mk_doc [''1'', ''2''] (Some ''newest?next=2''), mk_doc [''2'', ''3''] None]"

definition empty_world :: world where
  \<comment> \<open>a first page without rows, before and after the reload, that links to a second page\<close>
  "empty_world =
     pages_world [mk_doc [] (Some ''newest?next=2''), mk_doc [''7''] None]"

definition loop_world :: world where
  \<comment> \<open>a site that shows the same one-story page with a More link for ever\<close>
  "loop_world =
     \<lparr>goto_doc = (\<lambda>n u. Inr (mk_doc [''1''] (Some ''newest?next=2''))),
      reload_doc = (\<lambda>n u. Inr (mk_doc [''1''] (Some ''newest?next=2'')))\<rparr>"

definition reload_fails_world :: world where
  \<comment> \<open>a first page without rows whose reload fails\<close>
  "reload_fails_world =
     \<lparr>goto_doc = (\<lambda>n u. Inr (mk_doc [] (Some ''newest?next=2''))),
      reload_doc = (\<lambda>n u. Inl (Thrown ''net::ERR_FAILED''))\<rparr>"

definition blank_id_row :: row where
  \<comment> \<open>a row whose id attribute is one space\<close>
  "blank_id_row =
     \<lparr>row_id = Some '' '', titleEl = Some ''Show HN'',
      ageEl = Some \<lparr>age_title = Some ''2024-05-01T10:00:00'', age_text = ''1 hour ago''\<rparr>\<rparr>"

section \<open>The merge loop\<close>

lemma round53_small: "n < 2 ^ 53 \<Longrightarrow> round53 n = n"
  by (simp add: round53_def)

lemma round53_top: "round53 (2 ^ 53) = 2 ^ 53"
  by code_simp

lemma round53_top1: "round53 (2 ^ 53 + 1) = 2 ^ 53"
  by code_simp

lemma incr_small:
  assumes "p < 2 ^ 53"
  shows "incr p = Suc p"
proof -
  from assms have "int p < 2 ^ 53"
    by (metis of_nat_less_iff of_nat_numeral of_nat_power)
  then have "int p + 1 < 2 ^ 53 \<or> int p + 1 = 2 ^ 53" by linarith
  then have "round53 (int p + 1) = int p + 1"
    using round53_small[of "int p + 1"] round53_top by auto
  then show ?thesis by (simp add: incr_def)
qed

lemma incr_top: "incr (2 ^ 53) = 2 ^ 53"
proof -
  have "int (2 ^ 53) + 1 = 2 ^ 53 + 1" by simp
  then have "round53 (int (2 ^ 53) + 1) = 2 ^ 53" using round53_top1 by simp
  then show ?thesis by (simp add: incr_def)
qed

lemma incr_min: "p \<le> 2 ^ 53 \<Longrightarrow> incr p = min (Suc p) (2 ^ 53)"
  using incr_small[of p] incr_top by (cases "p = 2 ^ 53") auto

lemma funpow_incr: "(incr ^^ j) 0 = min j (2 ^ 53)"
proof (induction j)
  case 0
  show ?case by simp
next
  case (Suc j)
  have "incr (min j (2 ^ 53)) = min (Suc (min j (2 ^ 53))) (2 ^ 53)"
    by (rule incr_min) simp
  with Suc show ?case by (simp add: min_def)
qed

lemma funpow_incr_shift: "(incr ^^ j) (incr p) = (incr ^^ Suc j) p"
  by (simp add: funpow_swap1)

lemma merge_pages [simp]: "pages (merge want its s) = pages s"
  by (induction its arbitrary: s) (auto simp: Let_def)

lemma merge_url [simp]: "url (merge want its s) = url s"
  by (induction its arbitrary: s) (auto simp: Let_def)

lemma merge_trace [simp]: "trace (merge want its s) = trace s"
  by (induction its arbitrary: s) (auto simp: Let_def)

lemma loop_body_Next_pages: "loop_body w want s = Next s' \<Longrightarrow> pages s' = incr (pages s)"
  by (auto simp: loop_body_def Let_def split: prod.splits sum.splits if_splits option.splits)

lemma fetch_page_gotos:
  "fetch_page w n u = (x, evs) \<Longrightarrow> (evs = [Goto u] \<or> evs = [Goto u, Reload]) \<and> gotos evs = 1"
  by (auto simp: fetch_page_def Let_def gotos_def split: sum.splits if_splits)

lemma gotos_append [simp]: "gotos (xs @ ys) = gotos xs + gotos ys"
  by (simp add: gotos_def)

lemma merge_inv: "dedup_inv s \<Longrightarrow> dedup_inv (merge want its s)"
  by (induction its arbitrary: s) (auto simp: Let_def dedup_inv_def)

lemma merge_collected:
  "int (length (collected s)) < n \<Longrightarrow>
   collected (merge (Num n) its s) = take (nat n) (collected s @ fresh (seen s) its)"
proof (induction its arbitrary: s)
  case Nil
  then show ?case by simp
next
  case (Cons it its)
  show ?case
  proof (cases "id_of it \<in> seen s")
    case True
    with Cons show ?thesis by simp
  next
    case False
    let ?s' = "s\<lparr>seen := insert (id_of it) (seen s), collected := collected s @ [it]\<rparr>"
    show ?thesis
    proof (cases "n \<le> int (length (collected ?s'))")
      case True
      with Cons.prems have "nat n = Suc (length (collected s))" by simp
      with False True show ?thesis by (simp add: Let_def)
    next
      case stay: False
      then have "int (length (collected ?s')) < n" by simp
      from Cons.IH[OF this] False stay show ?thesis by (simp add: Let_def)
    qed
  qed
qed

lemma merge_seen_uncapped:
  assumes "int (length (collected (merge (Num n) its s))) < n"
  shows "seen (merge (Num n) its s) = seen s \<union> id_of ` set its"
  using assms
proof (induction its arbitrary: s)
  case Nil
  show ?case by simp
next
  case (Cons it its)
  show ?case
  proof (cases "id_of it \<in> seen s")
    case True
    with Cons show ?thesis by auto
  next
    case False
    let ?s' = "s\<lparr>seen := insert (id_of it) (seen s), collected := collected s @ [it]\<rparr>"
    show ?thesis
    proof (cases "n \<le> int (length (collected ?s'))")
      case True
      with False Cons.prems show ?thesis by (simp add: Let_def)
    next
      case stay: False
      with False Cons.prems
      have "int (length (collected (merge (Num n) its ?s'))) < n" by (simp add: Let_def)
      from Cons.IH[OF this] False stay show ?thesis by (simp add: Let_def)
    qed
  qed
qed

lemma fresh_append: "fresh S (xs @ ys) = fresh S xs @ fresh (S \<union> id_of ` set xs) ys"
  by (induction xs arbitrary: S) (auto simp: insert_absorb)

lemma fresh_first_seen: "fresh S xs = first_seen (filter (\<lambda>x. id_of x \<notin> S) xs)"
proof (induction xs arbitrary: S)
  case Nil
  then show ?case by simp
next
  case (Cons x xs)
  have "filter (\<lambda>y. id_of y \<noteq> id_of x) (filter (\<lambda>x. id_of x \<notin> S) xs)
        = filter (\<lambda>y. id_of y \<notin> insert (id_of x) S) xs"
    by (auto intro: filter_cong)
  with Cons show ?case by simp
qed

lemma fresh_ids: "id_of ` set (fresh S xs) = id_of ` set xs - S"
  by (induction xs arbitrary: S) auto

lemma fresh_distinct: "distinct (map id_of (fresh S xs))"
  by (induction xs arbitrary: S) (auto simp: fresh_ids)

section \<open>What the loop computes\<close>

lemma collect_done: "\<not> loop_cond want mp s \<Longrightarrow> collect w want mp s = Some (None, s)"
  by (subst collect.simps) simp

lemma collect_Stop:
  "loop_cond want mp s \<Longrightarrow> loop_body w want s = Stop e s' \<Longrightarrow>
   collect w want mp s = Some (e, s')"
  by (subst collect.simps) simp

lemma collect_Next:
  "loop_cond want mp s \<Longrightarrow> loop_body w want s = Next s' \<Longrightarrow>
   collect w want mp s = collect w want mp s'"
  by (subst collect.simps) simp

lemma loop_cond_Num:
  "loop_cond (Num n) mp s = (int (length (collected s)) < n \<and> page_test mp (pages s))"
  by (simp add: loop_cond_def page_test_def)

lemma take_short: "length (take n xs) < n \<Longrightarrow> take n xs = xs"
  by (metis leI length_take min.absorb2 nat_less_le take_all_iff)

text \<open>
  One iteration from a state in which the count is not reached, told by what the page
  holds: the loop is left when the stream reaches the count or the page has no next link,
  and goes on otherwise, with \<open>seen\<close> and \<open>collected\<close> grown by the new entries of the page.
\<close>

lemma loop_body_page:
  assumes fp: "fetch_page w (gotos (trace s)) (url s) = (Inr r, evs)"
    and lt: "int (length (collected s)) < n"
  defines "c1 \<equiv> collected s @ fresh (seen s) (items r)"
  shows "\<exists>s2. collected s2 = take (nat n) c1 \<and> pages s2 = incr (pages s) \<and>
              trace s2 = trace s @ evs \<and> url s2 = url s \<and>
              (int (length c1) < n \<longrightarrow> seen s2 = seen s \<union> id_of ` set (items r)) \<and>
              loop_body w (Num n) s =
                (if n \<le> int (length c1) then Stop None s2
                 else case moreHref r of
                        None \<Rightarrow> Stop None s2
                      | Some h \<Rightarrow> if h = [] then Stop None s2
                                  else Next (s2\<lparr>url := next_url h\<rparr>))"
proof -
  let ?s0 = "s\<lparr>trace := trace s @ evs\<rparr>"
  let ?s1 = "merge (Num n) (items r) ?s0"
  let ?s2 = "?s1\<lparr>pages := incr (pages ?s1)\<rparr>"
  from lt have c: "collected ?s1 = take (nat n) c1"
    using merge_collected[of ?s0 n "items r"] by (simp add: c1_def)
  have capped: "num_ge (Num (int (length (collected ?s2)))) (Num n) = (n \<le> int (length c1))"
    using c lt by auto
  have sn: "seen ?s2 = seen s \<union> id_of ` set (items r)" if "int (length c1) < n"
  proof -
    from that c have "int (length (collected ?s1)) < n" by auto
    from merge_seen_uncapped[OF this] show ?thesis by simp
  qed
  have "loop_body w (Num n) s =
          (if num_ge (Num (int (length (collected ?s2)))) (Num n) then Stop None ?s2
           else case moreHref r of
                  None \<Rightarrow> Stop None ?s2
                | Some h \<Rightarrow> if h = [] then Stop None ?s2
                            else Next (?s2\<lparr>url := next_url h\<rparr>))"
    unfolding loop_body_def fp by (simp only: prod.case sum.case Let_def)
  then have lb: "loop_body w (Num n) s =
          (if n \<le> int (length c1) then Stop None ?s2
           else case moreHref r of
                  None \<Rightarrow> Stop None ?s2
                | Some h \<Rightarrow> if h = [] then Stop None ?s2
                            else Next (?s2\<lparr>url := next_url h\<rparr>))"
    unfolding capped .
  have "collected ?s2 = take (nat n) c1" "pages ?s2 = incr (pages s)"
    "trace ?s2 = trace s @ evs" "url ?s2 = url s"
    using c by simp_all
  with sn lb show ?thesis
    by (intro exI[of _ ?s2]) blast
qed

lemma collect_char:
  assumes "int (length (collected s)) \<le> n"
    and "stops_within w n mp s k"
    and "crawl w k (gotos (trace s)) (url s) = (ps, e)"
  shows "collect_spec w n mp s (collected s @ fresh (seen s) (concat ps)) e
           ((incr ^^ length ps) (pages s))"
  using assms
proof (induction k arbitrary: s ps e)
  case 0
  then have "\<not> loop_cond (Num n) mp s"
    by (auto simp: stops_within_def loop_cond_Num)
  from collect_done[OF this] 0 show ?case
    by (auto simp: collect_spec_def stops_within_def)
next
  case (Suc k)
  note le = Suc.prems(1) and sw = Suc.prems(2) and cr = Suc.prems(3)
  from sw have pass: "\<forall>j\<in>{0..<Suc k}. page_test mp ((incr ^^ j) (pages s))"
    and stop: "n \<le> int (length (collected s @ fresh (seen s) (concat ps))) \<or> e \<noteq> None \<or>
               length ps < Suc k \<or> \<not> page_test mp ((incr ^^ Suc k) (pages s))"
    using cr by (simp_all add: stops_within_def)
  from pass have pt: "page_test mp (pages s)" by force
  show ?case
  proof (cases "int (length (collected s)) < n")
    case False
    with le have eq: "n = int (length (collected s))" by simp
    from False have "\<not> loop_cond (Num n) mp s" by (simp add: loop_cond_Num)
    from collect_done[OF this] eq show ?thesis by (simp add: collect_spec_def)
  next
    case lt: True
    with pt have lc: "loop_cond (Num n) mp s" by (simp add: loop_cond_Num)
    obtain x evs where fp: "fetch_page w (gotos (trace s)) (url s) = (x, evs)"
      by (cases "fetch_page w (gotos (trace s)) (url s)")
    show ?thesis
    proof (cases x)
      case (Inl e')
      with fp have "loop_body w (Num n) s = Stop (Some e') (s\<lparr>trace := trace s @ evs\<rparr>)"
        by (simp add: loop_body_def)
      from collect_Stop[OF lc this] fp Inl cr lt show ?thesis
        by (auto simp: collect_spec_def)
    next
      case (Inr r)
      define c1 where "c1 = collected s @ fresh (seen s) (items r)"
      from loop_body_page[OF fp[unfolded Inr] lt] obtain s2 where
        c2: "collected s2 = take (nat n) c1" and p2: "pages s2 = incr (pages s)"
        and t2: "trace s2 = trace s @ evs" and u2: "url s2 = url s"
        and sn2: "int (length c1) < n \<longrightarrow> seen s2 = seen s \<union> id_of ` set (items r)"
        and lb: "loop_body w (Num n) s =
                (if n \<le> int (length c1) then Stop None s2
                 else case moreHref r of
                        None \<Rightarrow> Stop None s2
                      | Some h \<Rightarrow> if h = [] then Stop None s2
                                  else Next (s2\<lparr>url := next_url h\<rparr>))"
        unfolding c1_def by blast
      from cr fp Inr obtain ps' where ps: "ps = items r # ps'"
        by (auto split: option.splits if_splits prod.splits)
      have fa: "collected s @ fresh (seen s) (concat ps)
                = c1 @ fresh (seen s \<union> id_of ` set (items r)) (concat ps')"
        by (simp add: ps fresh_append c1_def)
      show ?thesis
      proof (cases "n \<le> int (length c1)")
        case full: True
        with lb have "loop_body w (Num n) s = Stop None s2" by simp
        note c = collect_Stop[OF lc this]
        from full have len: "nat n \<le> length c1" by simp
        then have "take (nat n) (collected s @ fresh (seen s) (concat ps)) = take (nat n) c1"
          unfolding fa by simp
        moreover from len have "n \<le> int (length (collected s @ fresh (seen s) (concat ps)))"
          unfolding fa by simp
        ultimately show ?thesis using c c2 unfolding collect_spec_def by simp
      next
        case short: False
        with c2 have c2': "collected s2 = c1"
          using take_short[of "nat n" c1] by simp
        from short sn2 have sn2': "seen s2 = seen s \<union> id_of ` set (items r)" by simp
        show ?thesis
        proof (cases "moreHref r = None \<or> moreHref r = Some []")
          case True
          with lb short have "loop_body w (Num n) s = Stop None s2" by auto
          note c = collect_Stop[OF lc this]
          from True fp Inr cr have "ps = [items r]" "e = None"
            by auto
          with c c2' p2 short show ?thesis by (simp add: collect_spec_def c1_def)
        next
          case False
          then obtain h where h: "moreHref r = Some h" "h \<noteq> []" by auto
          let ?s3 = "s2\<lparr>url := next_url h\<rparr>"
          from lb short h have "loop_body w (Num n) s = Next ?s3" by simp
          note c = collect_Next[OF lc this]
          have g3: "gotos (trace ?s3) = Suc (gotos (trace s))"
            using fetch_page_gotos[OF fp] by (simp add: t2 gotos_def)
          obtain e' where cr': "crawl w k (Suc (gotos (trace s))) (next_url h) = (ps', e')"
            using cr fp Inr h ps by (auto split: prod.splits)
          with fp Inr h cr have e: "e = e'" by simp
          have cr3: "crawl w k (gotos (trace ?s3)) (url ?s3) = (ps', e')"
            using cr' g3 by simp
          have all: "collected ?s3 @ fresh (seen ?s3) (concat ps')
                   = collected s @ fresh (seen s) (concat ps)"
            unfolding fa using c2' sn2' by simp
          have sh: "(incr ^^ j) (pages ?s3) = (incr ^^ Suc j) (pages s)" for j
            by (simp add: p2 funpow_swap1)
          have p3: "\<forall>j\<in>{0..<k}. page_test mp ((incr ^^ j) (pages ?s3))"
          proof
            fix j assume "j \<in> {0..<k}"
            then have "Suc j \<in> {0..<Suc k}" by simp
            with pass have "page_test mp ((incr ^^ Suc j) (pages s))" by blast
            then show "page_test mp ((incr ^^ j) (pages ?s3))" by (simp only: sh)
          qed
          from stop have st3: "n \<le> int (length (collected ?s3 @ fresh (seen ?s3) (concat ps')))
              \<or> e' \<noteq> None \<or> length ps' < k \<or> \<not> page_test mp ((incr ^^ k) (pages ?s3))"
            unfolding all sh e ps by simp
          have sw3: "stops_within w n mp ?s3 k"
            unfolding stops_within_def cr3 prod.case using p3 st3 by blast
          from short c2' have le3: "int (length (collected ?s3)) \<le> n" by simp
          note IH = Suc.IH[OF le3 sw3 cr3]
          have n: "(incr ^^ length ps') (pages ?s3) = (incr ^^ length ps) (pages s)"
            using sh[of "length ps'"] by (simp add: ps)
          from IH show ?thesis
            unfolding all n e collect_spec_def c .
        qed
      qed
    qed
  qed
qed

section \<open>Invariants of the loop\<close>

lemma init_inv: "dedup_inv init_state"
  by (simp add: dedup_inv_def init_state_def)

lemma loop_body_NextE:
  assumes "loop_body w want s = Next s'"
  obtains r evs h where "fetch_page w (gotos (trace s)) (url s) = (Inr r, evs)"
    and "moreHref r = Some h" and "h \<noteq> []"
    and "s' = (merge want (items r) (s\<lparr>trace := trace s @ evs\<rparr>))\<lparr>pages := incr (pages s), url := next_url h\<rparr>"
    and "\<not> num_ge (Num (int (length (collected s')))) want"
proof -
  obtain x evs where fp: "fetch_page w (gotos (trace s)) (url s) = (x, evs)"
    by (cases "fetch_page w (gotos (trace s)) (url s)")
  with assms obtain r where x: "x = Inr r"
    by (cases x) (simp_all add: loop_body_def)
  from assms fp x obtain h where "moreHref r = Some h" "h \<noteq> []"
    "s' = (merge want (items r) (s\<lparr>trace := trace s @ evs\<rparr>))\<lparr>pages := incr (pages s), url := next_url h\<rparr>"
    "\<not> num_ge (Num (int (length (collected s')))) want"
    by (auto simp: loop_body_def Let_def split: if_splits option.splits)
  with fp x that show thesis by blast
qed

lemma loop_body_Stop_cases:
  assumes "loop_body w want s = Stop e s'"
  shows "(\<exists>x evs. fetch_page w (gotos (trace s)) (url s) = (Inl x, evs) \<and> e = Some x \<and>
                  s' = s\<lparr>trace := trace s @ evs\<rparr>) \<or>
         (\<exists>r evs. fetch_page w (gotos (trace s)) (url s) = (Inr r, evs) \<and> e = None \<and>
                  s' = (merge want (items r) (s\<lparr>trace := trace s @ evs\<rparr>))
                         \<lparr>pages := incr (pages s)\<rparr>)"
proof -
  obtain x evs where fp: "fetch_page w (gotos (trace s)) (url s) = (x, evs)"
    by (cases "fetch_page w (gotos (trace s)) (url s)")
  show ?thesis
  proof (cases x)
    case (Inl a)
    with fp assms show ?thesis by (auto simp: loop_body_def)
  next
    case (Inr r)
    with fp assms show ?thesis
      by (auto simp: loop_body_def Let_def split: if_splits option.splits)
  qed
qed

lemma head_inv: "loop_head w want mp s \<Longrightarrow> dedup_inv s"
proof (induction rule: loop_head.induct)
  case start
  show ?case by (rule init_inv)
next
  case (again s s')
  from again.hyps(3) obtain r evs h where fp: "fetch_page w (gotos (trace s)) (url s) = (Inr r, evs)"
    and mh: "moreHref r = Some h" and hne: "h \<noteq> []"
    and s': "s' = (merge want (items r) (s\<lparr>trace := trace s @ evs\<rparr>))\<lparr>pages := incr (pages s), url := next_url h\<rparr>"
    and short: "\<not> num_ge (Num (int (length (collected s')))) want"
    by (rule loop_body_NextE)
  note s'
  moreover from again.IH have "dedup_inv (merge want (items r) (s\<lparr>trace := trace s @ evs\<rparr>))"
    by (intro merge_inv) (simp add: dedup_inv_def)
  ultimately show ?case by (simp add: dedup_inv_def)
qed

lemma well_paged_Goto: "well_paged ys \<Longrightarrow> well_paged (Goto u # ys)"
  by (cases ys rule: well_paged.cases) auto

lemma well_paged_append:
  "well_paged xs \<Longrightarrow> well_paged ys \<Longrightarrow> well_paged (xs @ ys)"
  by (induction xs rule: well_paged.induct) (auto simp: well_paged_Goto)

lemma fetch_page_well_paged: "fetch_page w n u = (x, evs) \<Longrightarrow> well_paged evs"
  using fetch_page_gotos[of w n u x evs] by auto

lemma head_trace:
  "loop_head w want mp s \<Longrightarrow>
   well_paged (trace s) \<and> pages s = min (gotos (trace s)) (2 ^ 53)"
proof (induction rule: loop_head.induct)
  case start
  show ?case by (simp add: init_state_def gotos_def)
next
  case (again s s')
  from again.hyps(3) obtain r evs h where fp: "fetch_page w (gotos (trace s)) (url s) = (Inr r, evs)"
    and mh: "moreHref r = Some h" and hne: "h \<noteq> []"
    and s': "s' = (merge want (items r) (s\<lparr>trace := trace s @ evs\<rparr>))\<lparr>pages := incr (pages s), url := next_url h\<rparr>"
    and short: "\<not> num_ge (Num (int (length (collected s')))) want"
    by (rule loop_body_NextE)
  from fetch_page_gotos[OF fp] fetch_page_well_paged[OF fp]
  have ev: "well_paged evs" "gotos evs = 1" by simp_all
  from again.IH have "pages s \<le> 2 ^ 53" by simp
  from incr_min[OF this] again.IH
  have "incr (pages s) = min (Suc (gotos (trace s))) (2 ^ 53)" by (simp add: min_def)
  with again.IH ev s' show ?case by (simp add: well_paged_append)
qed

lemma head_pages:
  "loop_head w want (Num m) s \<Longrightarrow>
   int (pages s) \<le> max 0 m \<and> (m \<le> 2 ^ 53 \<longrightarrow> int (gotos (trace s)) \<le> max 0 m)"
proof (induction rule: loop_head.induct)
  case start
  show ?case by (simp add: init_state_def gotos_def)
next
  case (again s s')
  from again.hyps(3) obtain r evs h where fp: "fetch_page w (gotos (trace s)) (url s) = (Inr r, evs)"
    and mh: "moreHref r = Some h" and hne: "h \<noteq> []"
    and s': "s' = (merge want (items r) (s\<lparr>trace := trace s @ evs\<rparr>))\<lparr>pages := incr (pages s), url := next_url h\<rparr>"
    and short: "\<not> num_ge (Num (int (length (collected s')))) want"
    by (rule loop_body_NextE)
  from fetch_page_gotos[OF fp] have g: "gotos (trace s') = Suc (gotos (trace s))"
    by (simp add: s')
  from head_trace[OF again.hyps(1)] have p: "pages s = min (gotos (trace s)) (2 ^ 53)" by simp
  from again.hyps(2) have lt: "int (pages s) < m" by (simp add: loop_cond_def)
  from p have "pages s \<le> 2 ^ 53" by simp
  from incr_min[OF this] have i: "incr (pages s) \<le> Suc (pages s)" by simp
  with lt have a: "int (pages s') \<le> max 0 m" by (simp add: s')
  have b: "int (gotos (trace s')) \<le> max 0 m" if "m \<le> 2 ^ 53"
  proof -
    from that again.IH have "int (gotos (trace s)) \<le> 2 ^ 53" by auto
    then have "gotos (trace s) \<le> 2 ^ 53"
      by (metis of_nat_le_iff of_nat_numeral of_nat_power)
    with p have "pages s = gotos (trace s)" by simp
    with lt g show ?thesis by simp
  qed
  from a b show ?case by blast
qed

lemma head_length:
  "loop_head w (Num n) mp s \<Longrightarrow> int (length (collected s)) \<le> max 0 n"
proof (induction rule: loop_head.induct)
  case start
  show ?case by (simp add: init_state_def)
next
  case (again s s')
  from again.hyps(3) have "\<not> num_ge (Num (int (length (collected s')))) (Num n)"
    by (rule loop_body_NextE)
  then show ?case by simp
qed

text \<open>A run that returns is over at a loop head.\<close>

lemma collect_ends:
  assumes ret: "collect w want mp s = Some r" and head: "loop_head w want mp s"
  shows "\<exists>h. loop_head w want mp h \<and> ends_at w want mp h r"
proof -
  let ?P = "\<lambda>w want mp s r. loop_head w want mp s \<longrightarrow>
              (\<exists>h. loop_head w want mp h \<and> ends_at w want mp h r)"
  have "?P w want mp s r"
  proof (rule collect.raw_induct[where P = ?P])
    show "collect w want mp s = Some r" by (rule ret)
  next
    fix collect' w want mp s r
    assume IH: "\<And>w want mp s r. collect' w want mp s = Some r \<Longrightarrow> ?P w want mp s r"
      and body: "(if loop_cond want mp s
                  then case loop_body w want s of
                         Stop e s' \<Rightarrow> Some (e, s')
                       | Next s' \<Rightarrow> collect' w want mp s'
                  else Some (None, s)) = Some r"
    show "?P w want mp s r"
    proof
      assume h: "loop_head w want mp s"
      show "\<exists>h. loop_head w want mp h \<and> ends_at w want mp h r"
      proof (cases "loop_cond want mp s")
        case False
        with body have "r = (None, s)" by simp
        with False h show ?thesis by (auto simp: ends_at_def)
      next
        case True
        show ?thesis
        proof (cases "loop_body w want s")
          case (Stop e s')
          with True body have "r = (e, s')" by simp
          with True Stop h show ?thesis by (auto simp: ends_at_def)
        next
          case (Next s')
          with True body have c: "collect' w want mp s' = Some r" by simp
          from h True Next have "loop_head w want mp s'" by (rule loop_head.again)
          with IH[OF c] show ?thesis by blast
        qed
      qed
    qed
  qed
  with head show ?thesis by blast
qed

lemma ends_visited:
  assumes "loop_head w want mp h" and "ends_at w want mp h r"
  shows "visited w want mp (snd r)"
proof (cases "loop_cond want mp h")
  case False
  with assms show ?thesis by (simp add: ends_at_def visited.at_head)
next
  case True
  with assms(2) have st: "loop_body w want h = Stop (fst r) (snd r)" by (simp add: ends_at_def)
  from loop_body_Stop_cases[OF st] show ?thesis
  proof (elim disjE exE conjE)
    fix x evs
    assume fp: "fetch_page w (gotos (trace h)) (url h) = (Inl x, evs)"
      and s': "snd r = h\<lparr>trace := trace h @ evs\<rparr>"
    from visited.fetched[OF assms(1) True fp] s' show ?thesis by simp
  next
    fix x evs
    assume fp: "fetch_page w (gotos (trace h)) (url h) = (Inr x, evs)"
      and s': "snd r = (merge want (items x) (h\<lparr>trace := trace h @ evs\<rparr>))\<lparr>pages := incr (pages h)\<rparr>"
    from visited.counted[OF assms(1) True fp refl] s' show ?thesis by simp
  qed
qed

lemma final_visited:
  "collect w want mp init_state = Some r \<Longrightarrow> visited w want mp (snd r)"
  using collect_ends[OF _ loop_head.start] ends_visited by blast

text \<open>A run that returns has stopped within some number of iterations.\<close>

lemma returns_stops:
  assumes ret: "collect w (Num n) mp s = Some r"
  shows "\<exists>k. stops_within w n mp s k"
proof -
  let ?P = "\<lambda>w want mp s (r :: error option \<times> state).
              want = Num n \<longrightarrow> (\<exists>k. stops_within w n mp s k)"
  have "?P w (Num n) mp s r"
  proof (rule collect.raw_induct[where P = ?P])
    show "collect w (Num n) mp s = Some r" by (rule ret)
  next
    fix collect' w want mp s r
    assume IH: "\<And>w want mp s r. collect' w want mp s = Some r \<Longrightarrow> ?P w want mp s r"
      and body: "(if loop_cond want mp s
                  then case loop_body w want s of
                         Stop e s' \<Rightarrow> Some (e, s')
                       | Next s' \<Rightarrow> collect' w want mp s'
                  else Some (None, s)) = Some r"
    show "?P w want mp s r"
    proof
      assume want: "want = Num n"
          show "\<exists>k. stops_within w n mp s k"
      proof (cases "loop_cond want mp s")
        case False
        then have "stops_within w n mp s 0"
          by (auto simp: stops_within_def loop_cond_Num want)
        then show ?thesis ..
      next
        case True
        then have lt: "int (length (collected s)) < n" and pt: "page_test mp (pages s)"
          by (simp_all add: loop_cond_Num want)
        have pass1: "\<forall>j\<in>{0..<Suc 0}. page_test mp ((incr ^^ j) (pages s))"
          using pt by simp
        obtain x evs where fp: "fetch_page w (gotos (trace s)) (url s) = (x, evs)"
          by (cases "fetch_page w (gotos (trace s)) (url s)")
        show ?thesis
        proof (cases x)
          case (Inl e)
          with fp pass1 have "stops_within w n mp s (Suc 0)"
            by (simp add: stops_within_def)
          then show ?thesis ..
        next
          case (Inr r')
          define c1 where "c1 = collected s @ fresh (seen s) (items r')"
          from loop_body_page[OF fp[unfolded Inr] lt] obtain s2 where
            c2: "collected s2 = take (nat n) c1" and p2: "pages s2 = incr (pages s)"
            and t2: "trace s2 = trace s @ evs" and u2: "url s2 = url s"
            and sn2: "int (length c1) < n \<longrightarrow> seen s2 = seen s \<union> id_of ` set (items r')"
            and lb: "loop_body w (Num n) s =
                    (if n \<le> int (length c1) then Stop None s2
                     else case moreHref r' of
                            None \<Rightarrow> Stop None s2
                          | Some h \<Rightarrow> if h = [] then Stop None s2
                                      else Next (s2\<lparr>url := next_url h\<rparr>))"
            unfolding c1_def by blast
          show ?thesis
          proof (cases "n \<le> int (length c1)")
            case full: True
            obtain ps e where cr: "crawl w (Suc 0) (gotos (trace s)) (url s) = (ps, e)"
              by (cases "crawl w (Suc 0) (gotos (trace s)) (url s)")
            with fp Inr have "ps = [items r']"
              by (auto split: option.splits if_splits)
            with full cr pass1 have "stops_within w n mp s (Suc 0)"
              unfolding stops_within_def by (simp add: c1_def)
            then show ?thesis ..
          next
            case short: False
            with c2 have c2': "collected s2 = c1"
              using take_short[of "nat n" c1] by simp
            from short sn2 have sn2': "seen s2 = seen s \<union> id_of ` set (items r')" by simp
            show ?thesis
            proof (cases "moreHref r' = None \<or> moreHref r' = Some []")
              case True
              with fp Inr have cr1: "crawl w (Suc 0) (gotos (trace s)) (url s) = ([items r'], None)"
                and cr2: "crawl w (Suc (Suc 0)) (gotos (trace s)) (url s) = ([items r'], None)"
                by auto
              show ?thesis
              proof (cases "page_test mp (incr (pages s))")
                case False
                with cr1 pass1 have "stops_within w n mp s (Suc 0)"
                  unfolding stops_within_def by simp
                then show ?thesis ..
              next
                case pt2: True
                have "\<forall>j\<in>{0..<Suc (Suc 0)}. page_test mp ((incr ^^ j) (pages s))"
                proof
                  fix j assume "j \<in> {0..<Suc (Suc 0)}"
                  then have "j = 0 \<or> j = Suc 0" by auto
                  with pt pt2 show "page_test mp ((incr ^^ j) (pages s))" by auto
                qed
                with cr2 have "stops_within w n mp s (Suc (Suc 0))"
                  unfolding stops_within_def by simp
                then show ?thesis ..
              qed
            next
              case False
              then obtain h where h: "moreHref r' = Some h" "h \<noteq> []" by auto
              let ?s3 = "s2\<lparr>url := next_url h\<rparr>"
              from lb short h have nx: "loop_body w want s = Next ?s3" by (simp add: want)
              with True body have c: "collect' w want mp ?s3 = Some r" by simp
              from IH[OF c] want obtain k where sw3: "stops_within w n mp ?s3 k" by blast
              have g3: "gotos (trace ?s3) = Suc (gotos (trace s))"
                using fetch_page_gotos[OF fp] by (simp add: t2)
              obtain ps' e' where cr3: "crawl w k (gotos (trace ?s3)) (url ?s3) = (ps', e')"
                by (cases "crawl w k (gotos (trace ?s3)) (url ?s3)")
              then have cr': "crawl w k (Suc (gotos (trace s))) (next_url h) = (ps', e')"
                using g3 by simp
              with fp Inr h
              have cr: "crawl w (Suc k) (gotos (trace s)) (url s) = (items r' # ps', e')"
                by simp
              have all: "collected ?s3 @ fresh (seen ?s3) (concat ps')
                       = collected s @ fresh (seen s) (concat (items r' # ps'))"
                using c2' sn2' by (simp add: fresh_append c1_def)
              have sh: "(incr ^^ j) (pages ?s3) = (incr ^^ Suc j) (pages s)" for j
                by (simp add: p2 funpow_swap1)
              from sw3 have p3: "\<forall>j\<in>{0..<k}. page_test mp ((incr ^^ Suc j) (pages s))"
                and st3: "n \<le> int (length (collected s @ fresh (seen s) (concat (items r' # ps'))))
                  \<or> e' \<noteq> None \<or> length ps' < k \<or> \<not> page_test mp ((incr ^^ Suc k) (pages s))"
                unfolding stops_within_def cr3 prod.case all sh by blast+
              have pass: "\<forall>j\<in>{0..<Suc k}. page_test mp ((incr ^^ j) (pages s))"
              proof
                fix j assume j: "j \<in> {0..<Suc k}"
                show "page_test mp ((incr ^^ j) (pages s))"
                proof (cases j)
                  case 0
                  with pt show ?thesis by simp
                next
                  case (Suc i)
                  with j have "i \<in> {0..<k}" by simp
                  with p3 Suc show ?thesis by blast
                qed
              qed
              from st3 have st: "n \<le> int (length (collected s @ fresh (seen s) (concat (items r' # ps'))))
                  \<or> e' \<noteq> None \<or> length (items r' # ps') < Suc k
                  \<or> \<not> page_test mp ((incr ^^ Suc k) (pages s))"
                by simp
              have "stops_within w n mp s (Suc k)"
                unfolding stops_within_def cr prod.case using pass st by blast
              then show ?thesis ..
            qed
          qed
        qed
      qed
    qed
  qed
  then show ?thesis by simp
qed

text \<open>A budget that the page counter can reach ends the loop.\<close>

lemma collect_returns:
  assumes "bounded_budget mp"
  shows "\<exists>r. collect w want mp s = Some r"
proof (cases mp)
  case (Num m)
  with assms have m: "m \<le> 2 ^ 53" by (simp add: bounded_budget_def)
  show ?thesis
  proof (induction "nat (m - int (pages s))" arbitrary: s rule: less_induct)
    case less
    show ?case
    proof (cases "loop_cond want mp s")
      case False
      from collect_done[OF this] show ?thesis by blast
    next
      case True
      then have lt: "int (pages s) < m" by (simp add: loop_cond_def Num)
      show ?thesis
      proof (cases "loop_body w want s")
        case (Stop e s')
        from collect_Stop[OF True this] show ?thesis by blast
      next
        case (Next s')
        from lt m have "int (pages s) < 2 ^ 53" by simp
        then have "pages s < 2 ^ 53"
          by (metis of_nat_less_iff of_nat_numeral of_nat_power)
        from incr_small[OF this] loop_body_Next_pages[OF Next]
        have "pages s' = Suc (pages s)" by simp
        with lt have "nat (m - int (pages s')) < nat (m - int (pages s))" by simp
        from less[OF this] collect_Next[OF True Next] show ?thesis by simp
      qed
    qed
  qed
next
  case NaN
  then have "\<not> loop_cond want mp s" by (simp add: loop_cond_def)
  from collect_done[OF this] show ?thesis by blast
next
  case NegInf
  then have "\<not> loop_cond want mp s" by (simp add: loop_cond_def)
  from collect_done[OF this] show ?thesis by blast
next
  case PosInf
  with assms show ?thesis by (simp add: bounded_budget_def)
qed

lemma dedup_inv_props:
  assumes "dedup_inv s"
  shows "finite (seen s)" and "card (seen s) = length (collected s)"
    and "\<forall>e\<in>set (collected s). id_of e \<in> seen s" and "distinct (map id_of (collected s))"
proof -
  from assms have s: "seen s = set (map id_of (collected s))" and d: "distinct (map id_of (collected s))"
    by (simp_all add: dedup_inv_def)
  show "finite (seen s)" by (simp add: s)
  show "card (seen s) = length (collected s)"
    unfolding s using distinct_card[OF d] by simp
  show "\<forall>e\<in>set (collected s). id_of e \<in> seen s" by (simp add: s)
  show "distinct (map id_of (collected s))" by (rule d)
qed

lemma visited_inv:
  assumes "visited w want mp s"
  shows "\<exists>s1 X. dedup_inv s1 \<and> collected s = collected s1 \<and> seen s = seen s1 \<union> X \<and> finite X"
  using assms
proof (cases rule: visited.cases)
  case at_head
  then have "dedup_inv s" by (rule head_inv)
  then show ?thesis by (intro exI[of _ s] exI[of _ "{}"]) simp
next
  case (fetched h x evs)
  from fetched(2) have "dedup_inv h" by (rule head_inv)
  then have "dedup_inv s" by (simp add: fetched(1) dedup_inv_def)
  then show ?thesis by (intro exI[of _ s] exI[of _ "{}"]) simp
next
  case (merging h r evs k)
  from merging(2) have "dedup_inv h" by (rule head_inv)
  then have "dedup_inv (h\<lparr>trace := trace h @ evs\<rparr>)" by (simp add: dedup_inv_def)
  then have "dedup_inv s" unfolding merging(1) by (rule merge_inv)
  then show ?thesis by (intro exI[of _ s] exI[of _ "{}"]) simp
next
  case (adding h r evs k s1)
  from adding(2) have "dedup_inv h" by (rule head_inv)
  then have "dedup_inv (h\<lparr>trace := trace h @ evs\<rparr>)" by (simp add: dedup_inv_def)
  then have "dedup_inv s1" unfolding adding(6) by (rule merge_inv)
  then show ?thesis
    by (intro exI[of _ s1] exI[of _ "{id_of (items r ! k)}"]) (simp add: adding(1))
next
  case (counted h r evs s1)
  from counted(2) have "dedup_inv h" by (rule head_inv)
  then have "dedup_inv (h\<lparr>trace := trace h @ evs\<rparr>)" by (simp add: dedup_inv_def)
  then have "dedup_inv s1" unfolding counted(5) by (rule merge_inv)
  then have "dedup_inv s" by (simp add: counted(1) dedup_inv_def)
  then show ?thesis by (intro exI[of _ s] exI[of _ "{}"]) simp
qed

text \<open>Past a loop head, a state differs from it by the calls of one page and, at most, one
  step of the page counter.\<close>

lemma visited_shape:
  assumes "visited w want mp s"
  shows "loop_head w want mp s \<or>
         (\<exists>h x evs. loop_head w want mp h \<and> loop_cond want mp h \<and>
                    fetch_page w (gotos (trace h)) (url h) = (x, evs) \<and>
                    trace s = trace h @ evs \<and>
                    (pages s = pages h \<or> pages s = incr (pages h)))"
  using assms
proof (cases rule: visited.cases)
  case at_head
  then show ?thesis by simp
next
  case (fetched h x evs)
  then show ?thesis by (intro disjI2 exI[of _ h] exI[of _ x] exI[of _ evs]) simp
next
  case (merging h r evs k)
  then show ?thesis by (intro disjI2 exI[of _ h] exI[of _ "Inr r"] exI[of _ evs]) simp
next
  case (adding h r evs k s1)
  then show ?thesis by (intro disjI2 exI[of _ h] exI[of _ "Inr r"] exI[of _ evs]) simp
next
  case (counted h r evs s1)
  then show ?thesis by (intro disjI2 exI[of _ h] exI[of _ "Inr r"] exI[of _ evs]) simp
qed

lemma visited_trace:
  assumes "visited w want mp s"
  shows "well_paged (trace s) \<and> pages s \<le> 2 ^ 53"
proof -
  from visited_shape[OF assms] consider
    (head) "loop_head w want mp s"
    | (past) h x evs where "loop_head w want mp h" and "loop_cond want mp h"
        and "fetch_page w (gotos (trace h)) (url h) = (x, evs)"
        and "trace s = trace h @ evs"
        and "pages s = pages h \<or> pages s = incr (pages h)"
    by blast
  then show ?thesis
  proof cases
    case head
    from head_trace[OF this] show ?thesis by simp
  next
    case past
    note h = past(1) and fp = past(3) and t = past(4) and p = past(5)
    from head_trace[OF h] have ht: "well_paged (trace h)" "pages h \<le> 2 ^ 53" by simp_all
    from incr_min[OF ht(2)] have "incr (pages h) \<le> 2 ^ 53" by simp
    with p ht(2) have "pages s \<le> 2 ^ 53" by auto
    with ht(1) fetch_page_well_paged[OF fp] t show ?thesis by (simp add: well_paged_append)
  qed
qed

lemma visited_pages:
  assumes "visited w want (Num m) s"
  shows "int (pages s) \<le> max 0 m \<and> (m \<le> 2 ^ 53 \<longrightarrow> int (gotos (trace s)) \<le> max 0 m)"
proof -
  from visited_shape[OF assms] consider
    (head) "loop_head w want (Num m) s"
    | (past) h x evs where "loop_head w want (Num m) h" and "loop_cond want (Num m) h"
        and "fetch_page w (gotos (trace h)) (url h) = (x, evs)"
        and "trace s = trace h @ evs"
        and "pages s = pages h \<or> pages s = incr (pages h)"
    by blast
  then show ?thesis
  proof cases
    case head
    from head_pages[OF this] show ?thesis .
  next
    case past
    note h = past(1) and lc = past(2) and fp = past(3) and t = past(4) and p = past(5)
    from lc have lt: "int (pages h) < m" by (simp add: loop_cond_def)
    from head_trace[OF h] have hp: "pages h = min (gotos (trace h)) (2 ^ 53)" by simp
    then have "pages h \<le> 2 ^ 53" by simp
    from incr_min[OF this] have "incr (pages h) \<le> Suc (pages h)" by simp
    with p lt have a: "int (pages s) \<le> max 0 m" by auto
    have b: "int (gotos (trace s)) \<le> max 0 m" if "m \<le> 2 ^ 53"
    proof -
      from that head_pages[OF h] have "int (gotos (trace h)) \<le> 2 ^ 53" by auto
      then have "gotos (trace h) \<le> 2 ^ 53"
        by (metis of_nat_le_iff of_nat_numeral of_nat_power)
      with hp have "pages h = gotos (trace h)" by simp
      with lt fetch_page_gotos[OF fp] t show ?thesis by simp
    qed
    from a b show ?thesis by blast
  qed
qed

lemma merge_length_le:
  "int (length (collected s)) < n \<Longrightarrow> int (length (collected (merge (Num n) its s))) \<le> n"
  by (simp add: merge_collected)

lemma visited_length:
  assumes "visited w (Num n) mp s"
  shows "int (length (collected s)) \<le> max 0 n"
  using assms
proof (cases rule: visited.cases)
  case at_head
  then show ?thesis by (rule head_length)
next
  case (fetched h x evs)
  with head_length[of w n mp h] show ?thesis by simp
next
  case (merging h r evs k)
  from merging(3) have "int (length (collected (h\<lparr>trace := trace h @ evs\<rparr>))) < n"
    by (simp add: loop_cond_def)
  from merge_length_le[OF this, of "take k (items r)"] merging(1) show ?thesis by simp
next
  case (adding h r evs k s1)
  then show ?thesis by simp
next
  case (counted h r evs s1)
  from counted(3) have "int (length (collected (h\<lparr>trace := trace h @ evs\<rparr>))) < n"
    by (simp add: loop_cond_def)
  from merge_length_le[OF this, of "items r"] counted(1,5) show ?thesis by simp
qed

section \<open>Whole runs\<close>

lemma first_seen_fresh: "first_seen xs = fresh {} xs"
  by (simp add: fresh_first_seen)

lemma length_first_seen: "length (first_seen xs) = card (id_of ` set xs)"
proof -
  have "card (id_of ` set xs) = card (set (map id_of (fresh {} xs)))"
    by (simp add: fresh_ids)
  also have "\<dots> = length (map id_of (fresh {} xs))"
    by (rule distinct_card) (rule fresh_distinct)
  finally show ?thesis by (simp add: first_seen_fresh)
qed

lemma stops_within_init:
  "stops_within w n mp init_state k =
     (within_budget mp k \<and>
      (n \<le> int (length (first_seen (source_entries w k))) \<or>
       snd (crawl w k 0 START) \<noteq> None \<or> length (fst (crawl w k 0 START)) < k \<or>
       \<not> page_test mp ((incr ^^ k) 0)))"
  by (simp add: stops_within_def within_budget_def init_state_def gotos_def first_seen_fresh
        source_entries_def split: prod.splits)

lemma stops_within_mono: "a \<le> b \<Longrightarrow> stops_within w b mp s k \<Longrightarrow> stops_within w a mp s k"
  by (auto simp: stops_within_def split: prod.splits)

lemma run_char:
  assumes "0 \<le> n" and "stops_within w n mp init_state k"
  shows "collect_spec w n mp init_state (first_seen (source_entries w k))
           (snd (crawl w k 0 START)) ((incr ^^ length (fst (crawl w k 0 START))) 0)"
proof -
  have "collect_spec w n mp init_state
          (collected init_state @ fresh (seen init_state) (concat (fst (crawl w k 0 START))))
          (snd (crawl w k 0 START))
          ((incr ^^ length (fst (crawl w k 0 START))) (pages init_state))"
    using assms by (intro collect_char) (simp_all add: init_state_def gotos_def)
  then show ?thesis by (simp add: init_state_def first_seen_fresh source_entries_def)
qed

text \<open>A bounded budget of \<open>m\<close> pages: the run is over after \<open>m\<close> iterations at the latest.\<close>

lemma within_budget_bounded: "m \<le> 2 ^ 53 \<Longrightarrow> within_budget (Num m) (nat m)"
  by (auto simp: within_budget_def page_test_def funpow_incr)

lemma budget_spent: "m \<le> 2 ^ 53 \<Longrightarrow> \<not> page_test (Num m) ((incr ^^ nat m) 0)"
proof -
  assume "m \<le> 2 ^ 53"
  then have "nat m \<le> 2 ^ 53" by (simp add: nat_le_iff)
  then show ?thesis by (simp add: page_test_def funpow_incr)
qed

lemma stops_bounded: "m \<le> 2 ^ 53 \<Longrightarrow> stops_within w n (Num m) init_state (nat m)"
  by (simp add: stops_within_init within_budget_bounded budget_spent)

lemma report_items:
  assumes "0 \<le> n" and "int (length (collected s)) \<le> n"
  shows "out_items (report (Num n) mp (e, s)) = collected s"
  using assms by (cases e) (auto simp: report_def slice0_def Let_def split: error.splits)

lemma run_SomeE:
  assumes "run w want mp = Some out"
  obtains r where "collect w want mp init_state = Some r" and "out = report want mp r"
  using assms by (auto simp: run_def)

lemma run_items:
  assumes "0 \<le> n" and "collect w (Num n) mp init_state = Some r"
  shows "run w (Num n) mp = Some (report (Num n) mp r) \<and>
         out_items (report (Num n) mp r) = collected (snd r)"
proof -
  from final_visited[OF assms(2)] have "visited w (Num n) mp (snd r)" .
  from visited_length[OF this] assms(1) have "int (length (collected (snd r))) \<le> n" by simp
  from report_items[OF assms(1) this, of mp "fst r"] assms(2) show ?thesis
    by (simp add: run_def)
qed

lemma collected_bounded:
  assumes "0 \<le> n" and "m \<le> 2 ^ 53"
  shows "\<exists>r. collect w (Num n) (Num m) init_state = Some r \<and>
             collected (snd r) = take (nat n) (first_seen (source_entries w (nat m)))"
  using run_char[OF assms(1) stops_bounded[OF assms(2)], of w]
  by (auto simp: collect_spec_def)

lemma collected_returned:
  assumes "0 \<le> n" and "collect w (Num n) mp init_state = Some r"
  shows "\<exists>k. within_budget mp k \<and>
             collected (snd r) = take (nat n) (first_seen (source_entries w k))"
proof -
  from returns_stops[OF assms(2)] obtain k where k: "stops_within w n mp init_state k" ..
  from run_char[OF assms(1) k] assms(2)
  have "collected (snd r) = take (nat n) (first_seen (source_entries w k))"
    by (auto simp: collect_spec_def)
  moreover from k have "within_budget mp k" by (simp add: stops_within_init)
  ultimately show ?thesis by blast
qed

lemma prefix_returned:
  assumes "0 \<le> a" and "a \<le> b" and "run w (Num b) mp = Some ob"
  shows "\<exists>oa. run w (Num a) mp = Some oa \<and> take (nat a) (out_items ob) = out_items oa"
proof -
  from assms(3) obtain rb where rb: "collect w (Num b) mp init_state = Some rb"
    and ob: "ob = report (Num b) mp rb" by (rule run_SomeE)
  from assms(1,2) have b0: "0 \<le> b" by simp
  from returns_stops[OF rb] obtain k where kb: "stops_within w b mp init_state k" ..
  from stops_within_mono[OF assms(2) kb] have ka: "stops_within w a mp init_state k" .
  let ?all = "first_seen (source_entries w k)"
  from run_char[OF b0 kb] rb have cb: "collected (snd rb) = take (nat b) ?all"
    by (auto simp: collect_spec_def)
  from run_char[OF assms(1) ka] obtain ra where ra: "collect w (Num a) mp init_state = Some ra"
    and ca: "collected (snd ra) = take (nat a) ?all"
    by (auto simp: collect_spec_def)
  from run_items[OF b0 rb] ob have "out_items ob = take (nat b) ?all" by (simp add: cb)
  moreover from run_items[OF assms(1) ra]
  have "run w (Num a) mp = Some (report (Num a) mp ra)"
    and "out_items (report (Num a) mp ra) = take (nat a) ?all" by (simp_all add: ca)
  moreover from assms(2) have "take (nat a) (take (nat b) ?all) = take (nat a) ?all"
    by (simp add: min_def nat_le_iff)
  ultimately show ?thesis by simp
qed

lemma run_returns: "bounded_budget mp \<Longrightarrow> \<exists>out. run w want mp = Some out"
  using collect_returns[of mp w want init_state] by (auto simp: run_def)

lemma merge_prefix: "prefix (collected s) (collected (merge want its s))"
proof (induction its arbitrary: s)
  case Nil
  show ?case by simp
next
  case (Cons it its)
  let ?s' = "s\<lparr>seen := insert (id_of it) (seen s), collected := collected s @ [it]\<rparr>"
  have "prefix (collected s) (collected ?s')" by simp
  from this Cons[of ?s'] have "prefix (collected s) (collected (merge want its ?s'))"
    by (rule prefix_order.trans)
  with Cons[of s] show ?case by (simp add: Let_def)
qed

text \<open>
  Once the cap is reached in the merge of a page, the rest of the page changes nothing:
  neither \<open>seen\<close> nor \<open>collected\<close> grows any further.
\<close>

lemma merge_stops_at_cap:
  assumes "int (length (collected s)) < n"
    and "n \<le> int (length (collected (merge (Num n) its s)))"
  shows "merge (Num n) (its @ rest) s = merge (Num n) its s"
  using assms
proof (induction its arbitrary: s)
  case Nil
  then show ?case by simp
next
  case (Cons it its)
  show ?case
  proof (cases "id_of it \<in> seen s")
    case True
    with Cons show ?thesis by simp
  next
    case False
    let ?s' = "s\<lparr>seen := insert (id_of it) (seen s), collected := collected s @ [it]\<rparr>"
    show ?thesis
    proof (cases "n \<le> int (length (collected ?s'))")
      case True
      with False show ?thesis by (simp add: Let_def)
    next
      case stay: False
      then have "int (length (collected ?s')) < n" by simp
      moreover from Cons.prems(2) False stay
      have "n \<le> int (length (collected (merge (Num n) its ?s')))" by (simp add: Let_def)
      ultimately have "merge (Num n) (its @ rest) ?s' = merge (Num n) its ?s'" by (rule Cons.IH)
      with False stay show ?thesis by (simp add: Let_def)
    qed
  qed
qed

lemma final_inv:
  assumes "collect w want mp init_state = Some r"
  shows "dedup_inv (snd r)"
proof -
  from collect_ends[OF assms loop_head.start] obtain h where h: "loop_head w want mp h"
    and e: "ends_at w want mp h r" by blast
  note hi = head_inv[OF h]
  show ?thesis
  proof (cases "loop_cond want mp h")
    case False
    with e hi show ?thesis by (simp add: ends_at_def)
  next
    case True
    with e have st: "loop_body w want h = Stop (fst r) (snd r)" by (simp add: ends_at_def)
    from loop_body_Stop_cases[OF st] show ?thesis
    proof (elim disjE exE conjE)
      fix x evs
      assume "fetch_page w (gotos (trace h)) (url h) = (Inl x, evs)" and "fst r = Some x"
        and "snd r = h\<lparr>trace := trace h @ evs\<rparr>"
      with hi show ?thesis by (simp add: dedup_inv_def)
    next
      fix x evs
      assume "fetch_page w (gotos (trace h)) (url h) = (Inr x, evs)" and "fst r = None"
        and s': "snd r = (merge want (items x) (h\<lparr>trace := trace h @ evs\<rparr>))
                           \<lparr>pages := incr (pages h)\<rparr>"
      from hi have "dedup_inv (h\<lparr>trace := trace h @ evs\<rparr>)" by (simp add: dedup_inv_def)
      from merge_inv[OF this, of want "items x"] s' show ?thesis
        by (simp add: dedup_inv_def)
    qed
  qed
qed

text \<open>
  \<^verbatim>\<open>seen.add\<close> and \<^verbatim>\<open>collected.push\<close> always go together, so the number printed after
  \<^verbatim>\<open>Dups:\<close> is 0 in every run that prints it.
\<close>

lemma dups_always_zero:
  assumes "run w want mp = Some out"
  shows "dups out = None \<or> dups out = Some 0"
proof -
  from assms obtain r where r: "collect w want mp init_state = Some r"
    and out: "out = report want mp r" by (rule run_SomeE)
  from dedup_inv_props(2)[OF final_inv[OF r]] out show ?thesis
    by (cases r; cases "fst r") (auto simp: report_def Let_def split: error.splits)
qed

section \<open>Browser calls\<close>

lemma loop_body_step:
  "\<exists>evs. (evs = [Goto (url s)] \<or> evs = [Goto (url s), Reload]) \<and>
         trace (step_state (loop_body w want s)) = trace s @ evs \<and>
         pages (step_state (loop_body w want s))
           = (if step_thrown (loop_body w want s) then pages s else incr (pages s)) \<and>
         step_thrown (loop_body w want s) = isl (fst (fetch_page w (gotos (trace s)) (url s)))"
proof -
  obtain x evs where fp: "fetch_page w (gotos (trace s)) (url s) = (x, evs)"
    by (cases "fetch_page w (gotos (trace s)) (url s)")
  from fetch_page_gotos[OF fp] have ev: "evs = [Goto (url s)] \<or> evs = [Goto (url s), Reload]"
    by simp
  have "trace (step_state (loop_body w want s)) = trace s @ evs \<and>
        pages (step_state (loop_body w want s))
          = (if step_thrown (loop_body w want s) then pages s else incr (pages s)) \<and>
        step_thrown (loop_body w want s) = isl (fst (fetch_page w (gotos (trace s)) (url s)))"
  proof (cases x)
    case (Inl e)
    with fp show ?thesis by (simp add: loop_body_def step_state_def step_thrown_def)
  next
    case (Inr r)
    with fp show ?thesis
      by (simp add: loop_body_def step_state_def step_thrown_def Let_def split: option.splits)
  qed
  with ev show ?thesis by blast
qed

lemma final_trace:
  assumes "collect w want mp init_state = Some (e, s')"
  shows "well_paged (trace s') \<and>
         pages s' = min (gotos (trace s') - (if e = None then 0 else 1)) (2 ^ 53)"
proof -
  from collect_ends[OF assms loop_head.start] obtain h where h: "loop_head w want mp h"
    and en: "ends_at w want mp h (e, s')" by blast
  from head_trace[OF h] have ht: "well_paged (trace h)" "pages h = min (gotos (trace h)) (2 ^ 53)"
    by simp_all
  show ?thesis
  proof (cases "loop_cond want mp h")
    case False
    with en ht show ?thesis by (simp add: ends_at_def)
  next
    case True
    with en have st: "loop_body w want h = Stop e s'" by (simp add: ends_at_def)
    from loop_body_step[of h w want] obtain evs where
      ev: "evs = [Goto (url h)] \<or> evs = [Goto (url h), Reload]"
      and tr: "trace s' = trace h @ evs"
      and pg: "pages s' = (if e \<noteq> None then pages h else incr (pages h))"
      by (auto simp: st step_state_def step_thrown_def)
    from ev have we: "well_paged evs" "gotos evs = 1" by (auto simp: gotos_def)
    from ht(2) have "pages h \<le> 2 ^ 53" by simp
    from incr_min[OF this] ht(2)
    have "incr (pages h) = min (Suc (gotos (trace h))) (2 ^ 53)" by (simp add: min_def)
    with ht we tr pg show ?thesis by (auto simp: well_paged_append)
  qed
qed

lemma collect_trace_prefix:
  assumes ret: "collect w want mp s = Some r"
  shows "prefix (trace s) (trace (snd r))"
proof -
  let ?P = "\<lambda>(w :: world) (want :: number) (mp :: number) s (r :: error option \<times> state).
              prefix (trace s) (trace (snd r))"
  have "?P w want mp s r"
  proof (rule collect.raw_induct[where P = ?P])
    show "collect w want mp s = Some r" by (rule ret)
  next
    fix collect' w want mp s r
    assume IH: "\<And>w want mp s r. collect' w want mp s = Some r \<Longrightarrow> ?P w want mp s r"
      and body: "(if loop_cond want mp s
                  then case loop_body w want s of
                         Stop e s' \<Rightarrow> Some (e, s')
                       | Next s' \<Rightarrow> collect' w want mp s'
                  else Some (None, s)) = Some r"
    show "?P w want mp s r"
    proof (cases "loop_cond want mp s")
      case False
      with body show ?thesis by auto
    next
      case True
      from loop_body_step[of s w want] obtain evs where
        tr: "trace (step_state (loop_body w want s)) = trace s @ evs" by blast
      show ?thesis
      proof (cases "loop_body w want s")
        case (Next s')
        with tr have p: "prefix (trace s) (trace s')" by (simp add: step_state_def)
        from True Next body have "collect' w want mp s' = Some r" by simp
        from p IH[OF this] show ?thesis by (rule prefix_order.trans)
      next
        case (Stop e s')
        with tr True body show ?thesis by (auto simp: step_state_def)
      qed
    qed
  qed
  then show ?thesis .
qed

lemma collect_first_goto:
  assumes "loop_cond want mp s" and "collect w want mp s = Some r"
  shows "prefix (trace s @ [Goto (url s)]) (trace (snd r))"
proof -
  from loop_body_step[of s w want] obtain evs where
    ev: "evs = [Goto (url s)] \<or> evs = [Goto (url s), Reload]"
    and tr: "trace (step_state (loop_body w want s)) = trace s @ evs" by blast
  from ev tr have p: "prefix (trace s @ [Goto (url s)]) (trace (step_state (loop_body w want s)))"
    by auto
  show ?thesis
  proof (cases "loop_body w want s")
    case (Next s')
    with p have p': "prefix (trace s @ [Goto (url s)]) (trace s')" by (simp add: step_state_def)
    from assms(2) have "collect w want mp s' = Some r"
      unfolding collect_Next[OF assms(1) Next] .
    from p' collect_trace_prefix[OF this] show ?thesis by (rule prefix_order.trans)
  next
    case (Stop e s')
    with p assms(2) show ?thesis by (auto simp: collect_Stop[OF assms(1) Stop] step_state_def)
  qed
qed

lemma empty_reload_body:
  assumes "goto_doc w (gotos (trace s)) (url s) = Inr d" and "items (scrapePage d) = []"
    and "reload_doc w (gotos (trace s)) (url s) = Inr d'" and "items (scrapePage d') = []"
  shows "loop_body w want s =
           (let s' = s\<lparr>pages := incr (pages s), trace := trace s @ [Goto (url s), Reload]\<rparr>
            in if num_ge (Num (int (length (collected s)))) want then Stop None s'
               else case moreHref (scrapePage d') of
                 None \<Rightarrow> Stop None s'
               | Some h \<Rightarrow> if h = [] then Stop None s' else Next (s'\<lparr>url := next_url h\<rparr>))"
proof -
  from assms(1-3)
  have "fetch_page w (gotos (trace s)) (url s) = (Inr (scrapePage d'), [Goto (url s), Reload])"
    by (simp add: fetch_page_def)
  with assms(4) show ?thesis
    by (simp add: loop_body_def Let_def split: option.splits)
qed

section \<open>Arguments and rows\<close>










lemma math_max_ge1: "y \<noteq> NaN \<Longrightarrow> num_ge (math_max (Num 1) y) (Num 1)"
  by (cases y) (auto simp: math_max_def)

lemma or_num_not_NaN: "d \<noteq> NaN \<Longrightarrow> or_num x d \<noteq> NaN"
  by (auto simp: or_num_def)

lemma parseArg_ge1:
  "num_ge (count a) (Num 1) \<Longrightarrow> num_ge (maxPages a) (Num 1) \<Longrightarrow>
   num_ge (count (parseArg a x)) (Num 1) \<and> num_ge (maxPages (parseArg a x)) (Num 1)"
  by (simp add: parseArg_def math_max_ge1 or_num_not_NaN MAX_PAGES_DEFAULT_def)

lemma foldl_parseArg_ge1:
  "num_ge (count a) (Num 1) \<Longrightarrow> num_ge (maxPages a) (Num 1) \<Longrightarrow>
   num_ge (count (foldl parseArg a xs)) (Num 1) \<and>
   num_ge (maxPages (foldl parseArg a xs)) (Num 1)"
  by (induction xs arbitrary: a) (simp_all add: parseArg_ge1)

text \<open>Every run of the program asks for at least one entry and allows at least one page.\<close>

lemma parseArgs_ge1:
  "num_ge (count (parseArgs argv)) (Num 1) \<and> num_ge (maxPages (parseArgs argv)) (Num 1)"
  unfolding parseArgs_def by (rule foldl_parseArg_ge1) (simp_all add: MAX_PAGES_DEFAULT_def)

lemma trim_nonempty: "trim s \<noteq> [] \<Longrightarrow> s \<noteq> []"
  by (auto simp: trim_def)

lemma extract_row_eq:
  "extract_row tr =
     (if raw_id tr \<noteq> [] \<and> trim (raw_title tr) \<noteq> [] \<and> stamp tr \<noteq> []
      then Some \<lparr>id_of = raw_id tr, title = trim (raw_title tr), iso = stamp tr\<rparr>
      else None)"
  by (auto simp: extract_row_def raw_id_def raw_title_def stamp_def Let_def trim_def
           split: option.splits)

lemma stamp_valid: "trim (raw_timestamp tr) \<noteq> [] \<Longrightarrow> stamp tr \<noteq> []"
  by (auto simp: raw_timestamp_def stamp_def dest: trim_nonempty split: option.splits if_splits)

lemma valid_yields: "valid_after_trim tr \<Longrightarrow> extract_row tr \<noteq> None"
  by (simp add: valid_after_trim_def extract_row_eq stamp_valid trim_nonempty)

lemma extract_rows_eq: "extract_rows trs = List.map_filter extract_row trs"
  by (induction trs) (simp_all add: List.map_filter_simps split: option.splits)

lemma extract_rows_mem:
  "e \<in> set (extract_rows trs) \<Longrightarrow> \<exists>tr\<in>set trs. extract_row tr = Some e"
  by (induction trs) (auto split: option.splits)

lemma fetch_page_served:
  assumes "fetch_page w n u = (Inr r, evs)"
  shows "\<exists>d\<in>served w. r = scrapePage d"
  using assms
  by (auto simp: fetch_page_def Let_def served_def split: sum.splits if_splits)

lemma fetch_page_ids:
  assumes "fetch_page w n u = (Inr r, evs)"
  shows "id_of ` set (items r) \<subseteq> yielded_ids w"
proof
  fix i assume "i \<in> id_of ` set (items r)"
  then obtain e where e: "e \<in> set (items r)" "id_of e = i" by auto
  from fetch_page_served[OF assms] obtain d where d: "d \<in> served w" "r = scrapePage d" by blast
  with e(1) have "e \<in> set (extract_rows (rows d))" by (simp add: scrapePage_def)
  from extract_rows_mem[OF this] obtain tr where "tr \<in> set (rows d)" "extract_row tr = Some e"
    by blast
  with d(1) e(2) show "i \<in> yielded_ids w" by (auto simp: yielded_ids_def)
qed

lemma merge_seen_subset: "seen (merge want its s) \<subseteq> seen s \<union> id_of ` set its"
proof (induction its arbitrary: s)
  case Nil
  show ?case by simp
next
  case (Cons it its)
  let ?s' = "s\<lparr>seen := insert (id_of it) (seen s), collected := collected s @ [it]\<rparr>"
  from Cons[of ?s'] have a: "seen (merge want its ?s') \<subseteq> seen s \<union> id_of ` set (it # its)"
    by auto
  from Cons[of s] have b: "seen (merge want its s) \<subseteq> seen s \<union> id_of ` set (it # its)"
    by auto
  have c: "seen ?s' \<subseteq> seen s \<union> id_of ` set (it # its)" by auto
  show ?case
  proof (cases "id_of it \<in> seen s")
    case True
    with b show ?thesis by simp
  next
    case False
    show ?thesis
    proof (cases "num_ge (Num (int (length (collected ?s')))) want")
      case True
      with False c show ?thesis by (simp add: Let_def)
    next
      case stay: False
      with False a show ?thesis by (simp add: Let_def)
    qed
  qed
qed

lemma head_seen: "loop_head w want mp s \<Longrightarrow> seen s \<subseteq> yielded_ids w"
proof (induction rule: loop_head.induct)
  case start
  show ?case by (simp add: init_state_def)
next
  case (again s s')
  from again.hyps(3) obtain r evs h where fp: "fetch_page w (gotos (trace s)) (url s) = (Inr r, evs)"
    and mh: "moreHref r = Some h" and hne: "h \<noteq> []"
    and s': "s' = (merge want (items r) (s\<lparr>trace := trace s @ evs\<rparr>))\<lparr>pages := incr (pages s), url := next_url h\<rparr>"
    and short: "\<not> num_ge (Num (int (length (collected s')))) want"
    by (rule loop_body_NextE)
  from merge_seen_subset[of want "items r" "s\<lparr>trace := trace s @ evs\<rparr>"]
    fetch_page_ids[OF fp] again.IH s'
  show ?case by auto
qed

lemma visited_seen:
  assumes "visited w want mp s"
  shows "seen s \<subseteq> yielded_ids w"
  using assms
proof (cases rule: visited.cases)
  case at_head
  then show ?thesis by (rule head_seen)
next
  case (fetched h x evs)
  with head_seen[of w want mp h] show ?thesis by simp
next
  case (merging h r evs k)
  have "id_of ` set (take k (items r)) \<subseteq> id_of ` set (items r)"
    by (intro image_mono set_take_subset)
  with merge_seen_subset[of want "take k (items r)" "h\<lparr>trace := trace h @ evs\<rparr>"]
    fetch_page_ids[OF merging(4)] head_seen[OF merging(2)]
  show ?thesis unfolding merging(1) by (simp, blast)
next
  case (adding h r evs k s1)
  have "id_of ` set (take k (items r)) \<subseteq> id_of ` set (items r)"
    by (intro image_mono set_take_subset)
  with merge_seen_subset[of want "take k (items r)" "h\<lparr>trace := trace h @ evs\<rparr>"]
    fetch_page_ids[OF adding(4)] head_seen[OF adding(2)]
  have "seen s1 \<subseteq> yielded_ids w" unfolding adding(6) by (simp, blast)
  moreover from adding(5) have "id_of (items r ! k) \<in> id_of ` set (items r)" by simp
  with fetch_page_ids[OF adding(4)] have "id_of (items r ! k) \<in> yielded_ids w" by blast
  ultimately show ?thesis by (simp add: adding(1))
next
  case (counted h r evs s1)
  with merge_seen_subset[of want "items r" "h\<lparr>trace := trace h @ evs\<rparr>"]
    fetch_page_ids[OF counted(4)] head_seen[OF counted(2)]
  show ?thesis by auto
qed

section \<open>The page budget\<close>

lemma crawl_full_no_error:
  "length (fst (crawl w k n u)) = k \<Longrightarrow> snd (crawl w k n u) = None"
proof (induction k arbitrary: n u)
  case 0
  show ?case by simp
next
  case (Suc k)
  show ?case
  proof (cases "fst (fetch_page w n u)")
    case (Inl e)
    with Suc.prems show ?thesis by simp
  next
    case (Inr r)
    show ?thesis
    proof (cases "moreHref r = None \<or> moreHref r = Some []")
      case True
      with Inr show ?thesis by auto
    next
      case False
      then obtain h where h: "moreHref r = Some h" "h \<noteq> []" by auto
      obtain ps e where cr: "crawl w k (Suc n) (next_url h) = (ps, e)"
        by (cases "crawl w k (Suc n) (next_url h)")
      with Inr h Suc.prems have "length (fst (crawl w k (Suc n) (next_url h))) = k" by simp
      from Suc.IH[OF this] cr Inr h show ?thesis by simp
    qed
  qed
qed

lemma never_stops_bounded:
  assumes "never_stops w n" and "0 \<le> m" and "m \<le> 2 ^ 53"
  shows "\<exists>s'. collect w (Num n) (Num m) init_state = Some (None, s') \<and>
              int (pages s') = m \<and> int (length (collected s')) < n"
proof -
  let ?k = "nat m"
  from assms(1) have len: "length (fst (crawl w ?k 0 START)) = ?k"
    and short: "int (length (first_seen (source_entries w ?k))) < n"
    by (simp_all add: never_stops_def source_entries_def)
  from crawl_full_no_error[OF len] have e: "snd (crawl w ?k 0 START) = None" .
  from short have n0: "0 \<le> n" by simp
  from assms(3) have "?k \<le> 2 ^ 53" by (simp add: nat_le_iff)
  then have p: "(incr ^^ ?k) 0 = ?k" by (simp add: funpow_incr)
  from run_char[OF n0 stops_bounded[OF assms(3)], of w] short e len p assms(2)
  show ?thesis by (auto simp: collect_spec_def)
qed

lemma never_stops_unbounded:
  assumes "never_stops w n" and "\<not> bounded_budget mp"
  shows "collect w (Num n) mp init_state = None"
proof (rule ccontr)
  assume "collect w (Num n) mp init_state \<noteq> None"
  then obtain r where "collect w (Num n) mp init_state = Some r" by auto
  from returns_stops[OF this] obtain k where "stops_within w n mp init_state k" ..
  then have c: "n \<le> int (length (first_seen (source_entries w k))) \<or>
       snd (crawl w k 0 START) \<noteq> None \<or> length (fst (crawl w k 0 START)) < k \<or>
       \<not> page_test mp ((incr ^^ k) 0)"
    by (simp add: stops_within_init)
  from assms(1) have len: "length (fst (crawl w k 0 START)) = k"
    and short: "int (length (first_seen (source_entries w k))) < n"
    by (simp_all add: never_stops_def source_entries_def)
  from crawl_full_no_error[OF len] have e: "snd (crawl w k 0 START) = None" .
  have "page_test mp ((incr ^^ k) 0)"
  proof (cases mp)
    case (Num m)
    with assms(2) have "2 ^ 53 < m" by (simp add: bounded_budget_def)
    moreover have "int (min k (2 ^ 53)) \<le> 2 ^ 53" by simp
    ultimately have "int (min k (2 ^ 53)) < m" by linarith
    with Num show ?thesis by (simp add: page_test_def funpow_incr)
  next
    case PosInf
    then show ?thesis by (simp add: page_test_def)
  qed (use assms(2) in \<open>simp_all add: bounded_budget_def\<close>)
  with c len short e show False by simp
qed

lemma scrape_loop_page:
  "scrapePage (mk_doc [''1''] (Some ''newest?next=2'')) =
     \<lparr>items = [\<lparr>id_of = ''1'', title = ''Story 1'', iso = ''2024-05-01T10:00:00''\<rparr>],
      moreHref = Some ''newest?next=2''\<rparr>"
  by code_simp

lemma fetch_loop_world:
  "fst (fetch_page loop_world n u) = Inr (scrapePage (mk_doc [''1''] (Some ''newest?next=2'')))"
  by (simp add: fetch_page_def loop_world_def scrape_loop_page)

lemma crawl_loop_world:
  "crawl loop_world k n u =
     (replicate k [\<lparr>id_of = ''1'', title = ''Story 1'', iso = ''2024-05-01T10:00:00''\<rparr>], None)"
  by (induction k arbitrary: n u) (simp_all add: fetch_loop_world scrape_loop_page)

lemma never_stops_loop_world: "never_stops loop_world 2"
proof -
  let ?e = "\<lparr>id_of = ''1'', title = ''Story 1'', iso = ''2024-05-01T10:00:00''\<rparr>"
  have "int (length (first_seen (concat (replicate k [?e])))) < 2" for k
  proof -
    have "id_of ` set (concat (replicate k [?e])) \<subseteq> {''1''}" by auto
    then have "card (id_of ` set (concat (replicate k [?e]))) \<le> card {''1''}"
      by (intro card_mono) simp_all
    then show ?thesis by (simp add: length_first_seen)
  qed
  then show ?thesis by (simp add: never_stops_def crawl_loop_world)
qed

lemma num_lt_not_ge: "num_lt x y \<Longrightarrow> \<not> num_ge x y"
  by (cases x; cases y) auto

text \<open>An integer budget lets a run make that many iterations, whatever its size.\<close>

lemma within_budget_Num: "within_budget (Num m) (nat m)"
proof (cases "m \<le> 2 ^ 53")
  case True
  then show ?thesis by (rule within_budget_bounded)
next
  case False
  have "page_test (Num m) ((incr ^^ j) 0)" for j
  proof -
    have "int (min j (2 ^ 53)) \<le> 2 ^ 53" by simp
    with False have "int (min j (2 ^ 53)) < m" by linarith
    then show ?thesis by (simp add: page_test_def funpow_incr)
  qed
  then show ?thesis by (simp add: within_budget_def)
qed

lemma the_collect:
  "collect w want mp s \<noteq> None \<Longrightarrow>
   collect w want mp s = Some (fst (the (collect w want mp s)), snd (the (collect w want mp s)))"
  by auto

section \<open>The claims\<close>

text \<open>
  Claim C1, as amended. When a page parses to no entry and the parse after the one soft
  reload still yields none, the page is not reloaded again, adds nothing to \<open>seen\<close> or
  \<open>collected\<close>, and counts as one visited page. The run ends there when the re-parsed page
  has no next-page href (no More link, no href, or an empty one) or when the page budget is
  used up; otherwise the loop goes on and navigates to the next page.
\<close>

theorem empty_after_reload:
  assumes "loop_cond want mp s"
    and "goto_doc w (gotos (trace s)) (url s) = Inr d" and "items (scrapePage d) = []"
    and "reload_doc w (gotos (trace s)) (url s) = Inr d'" and "items (scrapePage d') = []"
  shows "let s' = s\<lparr>pages := incr (pages s), trace := trace s @ [Goto (url s), Reload]\<rparr> in
         case moreHref (scrapePage d') of
           None \<Rightarrow> collect w want mp s = Some (None, s')
         | Some h \<Rightarrow>
             if h = [] then collect w want mp s = Some (None, s')
             else if \<not> num_lt (Num (int (incr (pages s)))) mp
               then collect w want mp s = Some (None, s'\<lparr>url := next_url h\<rparr>)
               else collect w want mp s = collect w want mp (s'\<lparr>url := next_url h\<rparr>) \<and>
                    loop_cond want mp (s'\<lparr>url := next_url h\<rparr>) \<and>
                    (\<exists>evs. trace (step_state (loop_body w want (s'\<lparr>url := next_url h\<rparr>)))
                            = trace s @ [Goto (url s), Reload, Goto (next_url h)] @ evs) \<and>
                    (\<forall>r. collect w want mp s = Some r \<longrightarrow>
                         prefix (trace s @ [Goto (url s), Reload, Goto (next_url h)])
                           (trace (snd r)))"
proof -
  let ?s' = "s\<lparr>pages := incr (pages s), trace := trace s @ [Goto (url s), Reload]\<rparr>"
  from assms(1) have lt: "num_lt (Num (int (length (collected s)))) want"
    by (simp add: loop_cond_def)
  then have nge: "\<not> num_ge (Num (int (length (collected s)))) want" by (rule num_lt_not_ge)
  note body = empty_reload_body[OF assms(2-5), of want]
  show ?thesis
  proof (cases "moreHref (scrapePage d')")
    case None
    with body nge have "loop_body w want s = Stop None ?s'" by (simp add: Let_def)
    from collect_Stop[OF assms(1) this] None show ?thesis by (simp add: Let_def)
  next
    case (Some h)
    show ?thesis
    proof (cases "h = []")
      case True
      with body nge Some have "loop_body w want s = Stop None ?s'" by (simp add: Let_def)
      from collect_Stop[OF assms(1) this] Some True show ?thesis by (simp add: Let_def)
    next
      case False
      let ?s3 = "?s'\<lparr>url := next_url h\<rparr>"
      from body nge Some False have "loop_body w want s = Next ?s3" by (simp add: Let_def)
      from collect_Next[OF assms(1) this] have c: "collect w want mp s = collect w want mp ?s3" .
      show ?thesis
      proof (cases "num_lt (Num (int (incr (pages s)))) mp")
        case False
        then have "\<not> loop_cond want mp ?s3" by (simp add: loop_cond_def)
        from collect_done[OF this] c Some \<open>h \<noteq> []\<close> False show ?thesis by (simp add: Let_def)
      next
        case more: True
        with lt have lc: "loop_cond want mp ?s3" by (simp add: loop_cond_def)
        from loop_body_step[of ?s3 w want] obtain evs where
          "evs = [Goto (url ?s3)] \<or> evs = [Goto (url ?s3), Reload]"
          and "trace (step_state (loop_body w want ?s3)) = trace ?s3 @ evs" by blast
        then have nx: "\<exists>evs. trace (step_state (loop_body w want ?s3))
                            = trace s @ [Goto (url s), Reload, Goto (next_url h)] @ evs"
          by auto
        have pf: "\<forall>r. collect w want mp s = Some r \<longrightarrow>
                    prefix (trace s @ [Goto (url s), Reload, Goto (next_url h)]) (trace (snd r))"
        proof (intro allI impI)
          fix r assume "collect w want mp s = Some r"
          then have "collect w want mp ?s3 = Some r" unfolding c .
          from collect_first_goto[OF lc this] show
            "prefix (trace s @ [Goto (url s), Reload, Goto (next_url h)]) (trace (snd r))"
            by simp
        qed
        from c lc nx pf Some \<open>h \<noteq> []\<close> more show ?thesis by (simp add: Let_def)
      qed
    qed
  qed
qed

theorem empty_after_reload_witness:
  "loop_cond (Num 100) (Num 15) init_state \<and>
   goto_doc empty_world (gotos (trace init_state)) (url init_state)
     = Inr (mk_doc [] (Some ''newest?next=2'')) \<and>
   reload_doc empty_world (gotos (trace init_state)) (url init_state)
     = Inr (mk_doc [] (Some ''newest?next=2'')) \<and>
   items (scrapePage (mk_doc [] (Some ''newest?next=2''))) = [] \<and>
   collect empty_world (Num 100) (Num 15) init_state \<noteq> None \<and>
   prefix [Goto START, Reload, Goto (next_url ''newest?next=2'')]
     (trace (snd (the (collect empty_world (Num 100) (Num 15) init_state))))"
proof -
  let ?d = "mk_doc [] (Some ''newest?next=2'')"
  have h1: "loop_cond (Num 100) (Num 15) init_state"
    by (simp add: loop_cond_def init_state_def)
  have h2: "goto_doc empty_world (gotos (trace init_state)) (url init_state) = Inr ?d"
    by (simp add: empty_world_def pages_world_def init_state_def gotos_def)
  have h3: "reload_doc empty_world (gotos (trace init_state)) (url init_state) = Inr ?d"
    by (simp add: empty_world_def pages_world_def init_state_def gotos_def)
  have h4: "items (scrapePage ?d) = []"
    by (simp add: scrapePage_def mk_doc_def)
  have h5: "moreHref (scrapePage ?d) = Some ''newest?next=2''"
    by (simp add: scrapePage_def mk_doc_def)
  have h6: "num_lt (Num (int (incr (pages init_state)))) (Num 15)"
    by (simp add: init_state_def incr_small)
  have r: "collect empty_world (Num 100) (Num 15) init_state \<noteq> None"
    by code_simp
  from empty_after_reload[OF h1 h2 h4 h3 h4] h5 h6
  have "\<forall>r. collect empty_world (Num 100) (Num 15) init_state = Some r \<longrightarrow>
          prefix (trace init_state @ [Goto (url init_state), Reload,
                                      Goto (next_url ''newest?next=2'')]) (trace (snd r))"
    by (simp add: Let_def)
  moreover from r obtain r0 where r0: "collect empty_world (Num 100) (Num 15) init_state = Some r0"
    by blast
  ultimately have "prefix (trace init_state @ [Goto (url init_state), Reload,
                                      Goto (next_url ''newest?next=2'')]) (trace (snd r0))"
    by blast
  with r0 have "prefix [Goto START, Reload, Goto (next_url ''newest?next=2'')]
          (trace (snd (the (collect empty_world (Num 100) (Num 15) init_state))))"
    by (simp add: init_state_def)
  with h1 h2 h3 h4 r show ?thesis by blast
qed

theorem empty_after_reload_counterexample:
  "goto_doc empty_world 0 START = Inr (mk_doc [] (Some ''newest?next=2'')) \<and>
   reload_doc empty_world 0 START = Inr (mk_doc [] (Some ''newest?next=2'')) \<and>
   items (scrapePage (mk_doc [] (Some ''newest?next=2''))) = [] \<and>
   map_option (trace \<circ> snd) (collect empty_world (Num 100) (Num 15) init_state)
     = Some [Goto START, Reload, Goto ''https://news.ycombinator.com/newest?next=2''] \<and>
   map_option n_pages (run empty_world (Num 100) (Num 15)) = Some 2 \<and>
   map_option n_collected (run empty_world (Num 100) (Num 15)) = Some 1"
proof -
  have "goto_doc empty_world 0 START = Inr (mk_doc [] (Some ''newest?next=2''))"
    by (simp add: empty_world_def pages_world_def)
  moreover have "reload_doc empty_world 0 START = Inr (mk_doc [] (Some ''newest?next=2''))"
    by (simp add: empty_world_def pages_world_def)
  moreover have "items (scrapePage (mk_doc [] (Some ''newest?next=2''))) = []"
    by (simp add: scrapePage_def mk_doc_def)
  moreover have "map_option (trace \<circ> snd) (collect empty_world (Num 100) (Num 15) init_state)
     = Some [Goto START, Reload, Goto ''https://news.ycombinator.com/newest?next=2'']"
    by code_simp
  moreover have "map_option n_pages (run empty_world (Num 100) (Num 15)) = Some 2"
    by code_simp
  moreover have "map_option n_collected (run empty_world (Num 100) (Num 15)) = Some 1"
    by code_simp
  ultimately show ?thesis by blast
qed

text \<open>
  Claim C2. When the pages the source supplies within the page budget hold at least
  \<open>requestedCount\<close> distinct ids, the run ends with \<open>ok = true\<close>, exit code 0 and exactly
  \<open>requestedCount\<close> collected entries; and in no state of the run does \<open>collected\<close> hold
  more than \<open>requestedCount\<close> entries. The pages within the budget are any \<open>k\<close> pages that
  the page test lets the run visit; for \<open>maxPages = m\<close> these are the first \<open>m\<close> pages
  (lemma \<open>within_budget_Num\<close>). The count is never negative: \<^verbatim>\<open>parseArgs\<close> yields at least
  1 (lemma \<open>parseArgs_ge1\<close>).
\<close>

theorem threshold:
  assumes "0 \<le> n" and "within_budget mp k"
    and "n \<le> int (card (id_of ` set (source_entries w k)))"
  shows "(\<exists>out. run w (Num n) mp = Some out \<and> ok out \<and> n_collected out = nat n \<and>
               length (out_items out) = nat n \<and> exitCode out = 0) \<and>
         (\<forall>s. visited w (Num n) mp s \<longrightarrow> int (length (collected s)) \<le> n)"
proof -
  from assms(3) have enough: "n \<le> int (length (first_seen (source_entries w k)))"
    by (simp add: length_first_seen)
  with assms(2) have sw: "stops_within w n mp init_state k"
    by (simp add: stops_within_init)
  from run_char[OF assms(1) sw] enough obtain s where
    c: "collect w (Num n) mp init_state = Some (None, s)"
    and col: "collected s = take (nat n) (first_seen (source_entries w k))"
    by (auto simp: collect_spec_def)
  from col enough have len: "length (collected s) = nat n" by simp
  with assms(1) have "slice0 (collected s) (Num n) = collected s" by (simp add: slice0_def)
  with c len assms(1)
  have "\<exists>out. run w (Num n) mp = Some out \<and> ok out \<and> n_collected out = nat n \<and>
              length (out_items out) = nat n \<and> exitCode out = 0"
    by (simp add: run_def report_def Let_def)
  moreover have "\<forall>s. visited w (Num n) mp s \<longrightarrow> int (length (collected s)) \<le> n"
    using visited_length[of w n mp] assms(1) by (simp add: max_def)
  ultimately show ?thesis by blast
qed

theorem threshold_witness:
  "(0::int) \<le> 3 \<and> within_budget (Num 15) 15 \<and>
   3 \<le> int (card (id_of ` set (source_entries dup_world 15))) \<and>
   map_option ok (run dup_world (Num 3) (Num 15)) = Some True \<and>
   map_option n_collected (run dup_world (Num 3) (Num 15)) = Some 3 \<and>
   map_option exitCode (run dup_world (Num 3) (Num 15)) = Some 0"
proof -
  have h1: "(0::int) \<le> 3" by simp
  have h2: "within_budget (Num 15) 15" using within_budget_Num[of 15] by simp
  have h3: "3 \<le> int (card (id_of ` set (source_entries dup_world 15)))" by code_simp
  from threshold[OF h1 h2 h3] obtain out where
    "run dup_world (Num 3) (Num 15) = Some out" "ok out" "n_collected out = nat 3"
    "exitCode out = 0" by blast
  with h2 h3 show ?thesis by simp
qed

text \<open>
  Claim C3, evaluated where the code departs from it. The two pages of \<open>dup_world\<close> hold the
  ids 1, 2 and 2, 3: with 100 entries asked for the cap is never reached, id 2 is met a
  second time and skipped, and the number printed after \<^verbatim>\<open>Dups:\<close> is 0.
\<close>

theorem dups_counter_failing_input:
  "map id_of (source_entries dup_world 15) = [''1'', ''2'', ''2'', ''3''] \<and>
   length (source_entries dup_world 15) - length (first_seen (source_entries dup_world 15)) = 1 \<and>
   map_option n_collected (main dup_world [''node'', ''index.js'', ''--count=100'']) = Some 3 \<and>
   map_option dups (main dup_world [''node'', ''index.js'', ''--count=100'']) = Some (Some 0)"
proof -
  have "map id_of (source_entries dup_world 15) = [''1'', ''2'', ''2'', ''3'']"
    by code_simp
  moreover have "length (source_entries dup_world 15)
                   - length (first_seen (source_entries dup_world 15)) = 1"
    by code_simp
  moreover have "map_option n_collected (main dup_world [''node'', ''index.js'', ''--count=100''])
                   = Some 3"
    by code_simp
  moreover have "map_option dups (main dup_world [''node'', ''index.js'', ''--count=100''])
                   = Some (Some 0)"
    by code_simp
  ultimately show ?thesis by blast
qed

text \<open>
  Claim C4. Against the same source, the items reported for a count of 100 are the items at
  positions 0 to 99 reported for a count of 150: whenever the run for 150 returns, so does
  the run for 100, with that output; and both return whenever the page budget is one that
  the page counter can reach.
\<close>

theorem prefix_stability:
  "(\<forall>o150. run w (Num 150) mp = Some o150 \<longrightarrow>
      (\<exists>o100. run w (Num 100) mp = Some o100 \<and> take 100 (out_items o150) = out_items o100)) \<and>
   (bounded_budget mp \<longrightarrow>
      (\<exists>o150 o100. run w (Num 150) mp = Some o150 \<and> run w (Num 100) mp = Some o100 \<and>
                   take 100 (out_items o150) = out_items o100))"
proof -
  have a: "\<exists>o100. run w (Num 100) mp = Some o100 \<and> take 100 (out_items o150) = out_items o100"
    if "run w (Num 150) mp = Some o150" for o150
    using prefix_returned[of 100 150 w mp o150] that by simp
  have b: "\<exists>o150 o100. run w (Num 150) mp = Some o150 \<and> run w (Num 100) mp = Some o100 \<and>
                       take 100 (out_items o150) = out_items o100"
    if "bounded_budget mp"
  proof -
    from run_returns[OF that] obtain o150 where "run w (Num 150) mp = Some o150" by blast
    with a[OF this] show ?thesis by blast
  qed
  from a b show ?thesis by blast
qed

theorem prefix_stability_witness:
  "bounded_budget (Num 15) \<and>
   run dup_world (Num 150) (Num 15) \<noteq> None \<and> run dup_world (Num 100) (Num 15) \<noteq> None \<and>
   take 100 (out_items (the (run dup_world (Num 150) (Num 15))))
     = out_items (the (run dup_world (Num 100) (Num 15))) \<and>
   map id_of (out_items (the (run dup_world (Num 100) (Num 15)))) = [''1'', ''2'', ''3'']"
proof -
  have h: "bounded_budget (Num 15)" by (simp add: bounded_budget_def)
  have i: "map id_of (out_items (the (run dup_world (Num 100) (Num 15)))) = [''1'', ''2'', ''3'']"
    by code_simp
  from prefix_stability[of dup_world "Num 15"] h obtain o150 o100 where
    "run dup_world (Num 150) (Num 15) = Some o150" "run dup_world (Num 100) (Num 15) = Some o100"
    "take 100 (out_items o150) = out_items o100" by blast
  with h i show ?thesis by simp
qed

text \<open>
  Claim C5. In every state a run goes through, \<open>collected\<close> is no longer than \<open>seen\<close> is
  large, every collected entry has its id in \<open>seen\<close>, and no two collected entries share an
  id.
\<close>

theorem dedup_invariant:
  assumes "visited w want mp s"
  shows "length (collected s) \<le> card (seen s) \<and>
         (\<forall>e\<in>set (collected s). id_of e \<in> seen s) \<and>
         distinct (map id_of (collected s))"
proof -
  from visited_inv[OF assms] obtain s1 X where inv: "dedup_inv s1"
    and c: "collected s = collected s1" and sn: "seen s = seen s1 \<union> X" and X: "finite X"
    by blast
  note p = dedup_inv_props[OF inv]
  from p(1) X have "card (seen s1) \<le> card (seen s)"
    unfolding sn by (intro card_mono) auto
  with p(2) c have "length (collected s) \<le> card (seen s)" by simp
  moreover from p(3) c sn have "\<forall>e\<in>set (collected s). id_of e \<in> seen s" by simp
  moreover from p(4) c have "distinct (map id_of (collected s))" by simp
  ultimately show ?thesis by blast
qed

theorem dedup_invariant_witness:
  "collect dup_world (Num 100) (Num 15) init_state \<noteq> None \<and>
   visited dup_world (Num 100) (Num 15)
     (snd (the (collect dup_world (Num 100) (Num 15) init_state))) \<and>
   map id_of (collected (snd (the (collect dup_world (Num 100) (Num 15) init_state))))
     = [''1'', ''2'', ''3''] \<and>
   length (collected (snd (the (collect dup_world (Num 100) (Num 15) init_state))))
     \<le> card (seen (snd (the (collect dup_world (Num 100) (Num 15) init_state)))) \<and>
   id_of ` set (collected (snd (the (collect dup_world (Num 100) (Num 15) init_state))))
     \<subseteq> seen (snd (the (collect dup_world (Num 100) (Num 15) init_state))) \<and>
   distinct (map id_of (collected (snd (the (collect dup_world (Num 100) (Num 15) init_state)))))"
proof -
  have r: "collect dup_world (Num 100) (Num 15) init_state \<noteq> None" by code_simp
  then have "collect dup_world (Num 100) (Num 15) init_state
               = Some (the (collect dup_world (Num 100) (Num 15) init_state))" by simp
  then have v: "visited dup_world (Num 100) (Num 15)
                  (snd (the (collect dup_world (Num 100) (Num 15) init_state)))"
    by (rule final_visited)
  have "map id_of (collected (snd (the (collect dup_world (Num 100) (Num 15) init_state))))
          = [''1'', ''2'', ''3'']"
    by code_simp
  with dedup_invariant[OF v] v r show ?thesis by blast
qed

text \<open>
  Claim C6. The collected entries are the first occurrences of their ids in the stream of
  entries the source supplies, in the order of that stream, cut at the count asked for; the
  reported items are the same list; and the merge loop only ever appends to \<open>collected\<close>.
  For a page budget \<open>m\<close> that the page counter can reach the stream is that of the first
  \<open>m\<close> pages; for any budget, a run that returns reports the stream of some number of pages
  within the budget.
\<close>

theorem first_seen_order:
  assumes "0 \<le> n"
  shows "(m \<le> 2 ^ 53 \<longrightarrow>
           (\<exists>r. collect w (Num n) (Num m) init_state = Some r \<and>
                run w (Num n) (Num m) = Some (report (Num n) (Num m) r) \<and>
                collected (snd r) = take (nat n) (first_seen (source_entries w (nat m))) \<and>
                out_items (report (Num n) (Num m) r)
                  = take (nat n) (first_seen (source_entries w (nat m))))) \<and>
         (\<forall>r. collect w (Num n) mp init_state = Some r \<longrightarrow>
            run w (Num n) mp = Some (report (Num n) mp r) \<and>
            out_items (report (Num n) mp r) = collected (snd r) \<and>
            (\<exists>k. within_budget mp k \<and>
                 collected (snd r) = take (nat n) (first_seen (source_entries w k)))) \<and>
         (\<forall>its s. prefix (collected s) (collected (merge (Num n) its s)))"
proof -
  have a: "\<exists>r. collect w (Num n) (Num m) init_state = Some r \<and>
                run w (Num n) (Num m) = Some (report (Num n) (Num m) r) \<and>
                collected (snd r) = take (nat n) (first_seen (source_entries w (nat m))) \<and>
                out_items (report (Num n) (Num m) r)
                  = take (nat n) (first_seen (source_entries w (nat m)))"
    if "m \<le> 2 ^ 53"
  proof -
    from collected_bounded[OF assms that, of w] obtain r where
      r: "collect w (Num n) (Num m) init_state = Some r"
      and c: "collected (snd r) = take (nat n) (first_seen (source_entries w (nat m)))"
      by blast
    from run_items[OF assms r] r c show ?thesis by auto
  qed
  have b: "run w (Num n) mp = Some (report (Num n) mp r) \<and>
            out_items (report (Num n) mp r) = collected (snd r) \<and>
            (\<exists>k. within_budget mp k \<and>
                 collected (snd r) = take (nat n) (first_seen (source_entries w k)))"
    if "collect w (Num n) mp init_state = Some r" for r
    using run_items[OF assms that] collected_returned[OF assms that] by blast
  from a b merge_prefix show ?thesis by blast
qed

theorem first_seen_order_witness:
  "(0::int) \<le> 5 \<and> (15::int) \<le> 2 ^ 53 \<and>
   map_option (map id_of \<circ> out_items) (run dup_world (Num 5) (Num 15))
     = Some [''1'', ''2'', ''3'']"
proof -
  have h: "(0::int) \<le> 5" by simp
  have k: "(15::int) \<le> 2 ^ 53" by simp
  have ev: "map id_of (take 5 (first_seen (source_entries dup_world 15))) = [''1'', ''2'', ''3'']"
    by code_simp
  from first_seen_order[OF h, of 15 dup_world] k obtain r where
    "run dup_world (Num 5) (Num 15) = Some (report (Num 5) (Num 15) r)"
    "out_items (report (Num 5) (Num 15) r)
       = take (nat 5) (first_seen (source_entries dup_world (nat 15)))"
    by blast
  with ev h k show ?thesis by simp
qed

text \<open>
  Claim C7, as amended. One iteration of the loop navigates once and reloads at most once.
  When the iteration completes it adds exactly 1 to \<open>pages\<close>, with or without a reload (the
  counter is a double: the sum is rounded, so that \<open>pages\<close> stays at \<open>2 ^ 53\<close> once there).
  When \<^verbatim>\<open>goto\<close> or the reload throws, the run ends in the catch block and \<open>pages\<close> is left as
  it was: that page is not counted. At every moment of a run the browser calls made so far
  are a sequence of page visits, each with at most one reload, and at the end \<open>pages\<close> is
  the number of pages navigated to, less one when the last visit threw.
\<close>

theorem reload_once_per_page:
  "(\<exists>evs. (evs = [Goto (url s)] \<or> evs = [Goto (url s), Reload]) \<and>
          trace (step_state (loop_body w want s)) = trace s @ evs \<and>
          pages (step_state (loop_body w want s))
            = (if step_thrown (loop_body w want s) then pages s else incr (pages s)) \<and>
          step_thrown (loop_body w want s)
            = isl (fst (fetch_page w (gotos (trace s)) (url s)))) \<and>
   (pages s < 2 ^ 53 \<longrightarrow> incr (pages s) = Suc (pages s)) \<and>
   incr (2 ^ 53) = 2 ^ 53 \<and>
   (\<forall>s'. visited w want mp s' \<longrightarrow> well_paged (trace s') \<and> pages s' \<le> 2 ^ 53) \<and>
   (\<forall>e s'. collect w want mp init_state = Some (e, s') \<longrightarrow>
      well_paged (trace s') \<and>
      pages s' = min (gotos (trace s') - (if e = None then 0 else 1)) (2 ^ 53))"
  using loop_body_step[of s w want] incr_small[of "pages s"] incr_top
    visited_trace[of w want mp] final_trace[of w want mp]
  by blast

theorem reload_once_per_page_witness:
  "collect empty_world (Num 100) (Num 15) init_state \<noteq> None \<and>
   trace (snd (the (collect empty_world (Num 100) (Num 15) init_state)))
     = [Goto START, Reload, Goto ''https://news.ycombinator.com/newest?next=2''] \<and>
   well_paged (trace (snd (the (collect empty_world (Num 100) (Num 15) init_state)))) \<and>
   pages (snd (the (collect empty_world (Num 100) (Num 15) init_state))) = 2"
proof -
  let ?r = "the (collect empty_world (Num 100) (Num 15) init_state)"
  have r: "collect empty_world (Num 100) (Num 15) init_state \<noteq> None" by code_simp
  have e: "fst ?r = None" by code_simp
  have t: "trace (snd ?r)
     = [Goto START, Reload, Goto ''https://news.ycombinator.com/newest?next=2'']" by code_simp
  have g: "gotos [Goto START, Reload, Goto ''https://news.ycombinator.com/newest?next=2''] = 2"
    by (simp add: gotos_def)
  from reload_once_per_page[of init_state empty_world "Num 100" "Num 15"] the_collect[OF r]
  have "well_paged (trace (snd ?r)) \<and>
        pages (snd ?r) = min (gotos (trace (snd ?r)) - (if fst ?r = None then 0 else 1)) (2 ^ 53)"
    by blast
  with e t g r show ?thesis by simp
qed

theorem reload_once_per_page_counterexample:
  "goto_doc reload_fails_world 0 START = Inr (mk_doc [] (Some ''newest?next=2'')) \<and>
   items (scrapePage (mk_doc [] (Some ''newest?next=2''))) = [] \<and>
   reload_doc reload_fails_world 0 START = Inl (Thrown ''net::ERR_FAILED'') \<and>
   map_option (trace \<circ> snd) (collect reload_fails_world (Num 100) (Num 15) init_state)
     = Some [Goto START, Reload] \<and>
   map_option n_pages (run reload_fails_world (Num 100) (Num 15)) = Some 0 \<and>
   map_option err (run reload_fails_world (Num 100) (Num 15)) = Some (Some ''net::ERR_FAILED'')"
proof -
  have "goto_doc reload_fails_world 0 START = Inr (mk_doc [] (Some ''newest?next=2''))"
    by (simp add: reload_fails_world_def)
  moreover have "items (scrapePage (mk_doc [] (Some ''newest?next=2''))) = []"
    by (simp add: scrapePage_def mk_doc_def)
  moreover have "reload_doc reload_fails_world 0 START = Inl (Thrown ''net::ERR_FAILED'')"
    by (simp add: reload_fails_world_def)
  moreover have "map_option (trace \<circ> snd)
                   (collect reload_fails_world (Num 100) (Num 15) init_state)
                 = Some [Goto START, Reload]"
    by code_simp
  moreover have "map_option n_pages (run reload_fails_world (Num 100) (Num 15)) = Some 0"
    by code_simp
  moreover have "map_option err (run reload_fails_world (Num 100) (Num 15))
                 = Some (Some ''net::ERR_FAILED'')"
    by code_simp
  ultimately show ?thesis by blast
qed

text \<open>
  Claim C8, as amended. The parser yields an entry for a row exactly when the row's id
  attribute is non-empty as it stands (it is not trimmed), its title text is non-empty after
  trimming, and its timestamp is non-empty, the timestamp being the age element's title
  attribute as it stands or, when that is absent or empty, the element's text trimmed. So
  every row whose three fields are non-empty after trimming yields an entry. Any other row
  is skipped: the parser is a total function of the page, its items are the yielded entries
  in row order, and in every state of every run \<open>seen\<close> holds only ids of yielded entries.
\<close>

theorem extract_row_rule:
  "extract_row tr =
     (if raw_id tr \<noteq> [] \<and> trim (raw_title tr) \<noteq> [] \<and> stamp tr \<noteq> []
      then Some \<lparr>id_of = raw_id tr, title = trim (raw_title tr), iso = stamp tr\<rparr>
      else None) \<and>
   (valid_after_trim tr \<longrightarrow> extract_row tr \<noteq> None) \<and>
   items (scrapePage d) = List.map_filter extract_row (rows d) \<and>
   (\<forall>s. visited w want mp s \<longrightarrow> seen s \<subseteq> yielded_ids w)"
  using extract_row_eq[of tr] valid_yields[of tr] extract_rows_eq[of "rows d"]
    visited_seen[of w want mp]
  by (simp add: scrapePage_def)

theorem extract_row_rule_witness:
  "valid_after_trim (mk_row ''1'') \<and>
   extract_row (mk_row ''1'')
     = Some \<lparr>id_of = ''1'', title = ''Story 1'', iso = ''2024-05-01T10:00:00''\<rparr> \<and>
   extract_row \<lparr>row_id = Some ''2'', titleEl = Some ''   '', ageEl = None\<rparr> = None \<and>
   visited dup_world (Num 100) (Num 15)
     (snd (the (collect dup_world (Num 100) (Num 15) init_state))) \<and>
   seen (snd (the (collect dup_world (Num 100) (Num 15) init_state))) \<subseteq> yielded_ids dup_world"
proof -
  have v: "valid_after_trim (mk_row ''1'')" by code_simp
  have r: "raw_id (mk_row ''1'') = ''1''" "trim (raw_title (mk_row ''1'')) = ''Story 1''"
    "stamp (mk_row ''1'') = ''2024-05-01T10:00:00''"
    by code_simp+
  have n: "trim (raw_title \<lparr>row_id = Some ''2'', titleEl = Some ''   '', ageEl = None\<rparr>) = []"
    by code_simp
  have "collect dup_world (Num 100) (Num 15) init_state \<noteq> None" by code_simp
  then have "collect dup_world (Num 100) (Num 15) init_state
               = Some (the (collect dup_world (Num 100) (Num 15) init_state))" by simp
  then have f: "visited dup_world (Num 100) (Num 15)
                  (snd (the (collect dup_world (Num 100) (Num 15) init_state)))"
    by (rule final_visited)
  from extract_row_rule[of "mk_row ''1''" undefined dup_world "Num 100" "Num 15"] r
  have a: "extract_row (mk_row ''1'')
     = Some \<lparr>id_of = ''1'', title = ''Story 1'', iso = ''2024-05-01T10:00:00''\<rparr>"
    by simp
  from extract_row_rule[of "\<lparr>row_id = Some ''2'', titleEl = Some ''   '', ageEl = None\<rparr>"
      undefined dup_world "Num 100" "Num 15"] n
  have b: "extract_row \<lparr>row_id = Some ''2'', titleEl = Some ''   '', ageEl = None\<rparr> = None"
    by simp
  from extract_row_rule[of "mk_row ''1''" undefined dup_world "Num 100" "Num 15"] f
  have "seen (snd (the (collect dup_world (Num 100) (Num 15) init_state)))
          \<subseteq> yielded_ids dup_world"
    by blast
  with v a b f show ?thesis by blast
qed

theorem extract_row_counterexample:
  "extract_row blank_id_row
     = Some \<lparr>id_of = '' '', title = ''Show HN'', iso = ''2024-05-01T10:00:00''\<rparr> \<and>
   trim (raw_id blank_id_row) = [] \<and>
   \<not> valid_after_trim blank_id_row \<and>
   map_option (seen \<circ> snd)
     (collect (pages_world [\<lparr>rows = [blank_id_row], moreEl = None\<rparr>]) (Num 100) (Num 15)
        init_state) = Some {'' ''}"
proof -
  have "extract_row blank_id_row
     = Some \<lparr>id_of = '' '', title = ''Show HN'', iso = ''2024-05-01T10:00:00''\<rparr>"
    by code_simp
  moreover have "trim (raw_id blank_id_row) = []"
    by code_simp
  moreover have "\<not> valid_after_trim blank_id_row"
    by code_simp
  moreover have "map_option (seen \<circ> snd)
     (collect (pages_world [\<lparr>rows = [blank_id_row], moreEl = None\<rparr>]) (Num 100) (Num 15)
        init_state) = Some {'' ''}"
    by code_simp
  ultimately show ?thesis by blast
qed

text \<open>
  Claim C9, as amended. In every state of a run \<open>pages\<close> is at most \<open>maxPages\<close>. A run
  whose \<open>maxPages\<close> is at most \<open>2 ^ 53\<close> ends, after navigating to at most \<open>maxPages\<close> pages; and
  for a source that meets no other stopping condition it ends, without success, after
  exactly \<open>maxPages\<close> pages: nothing else bounds it. With a larger \<open>maxPages\<close> (a
  \<^verbatim>\<open>--max-pages\<close> value above \<open>2 ^ 53\<close>, or one that \<^verbatim>\<open>parseInt\<close> turns into \<open>Infinity\<close>) the
  page counter, a double that stops growing at \<open>2 ^ 53\<close>, never reaches \<open>maxPages\<close>, and the
  run on such a source never ends.
\<close>

theorem page_budget:
  "(\<forall>s. visited w want (Num m) s \<longrightarrow>
         int (pages s) \<le> max 0 m \<and> (m \<le> 2 ^ 53 \<longrightarrow> int (gotos (trace s)) \<le> max 0 m)) \<and>
   (bounded_budget mp \<longrightarrow> (\<exists>out. run w want mp = Some out)) \<and>
   (\<forall>out. run w want (Num m) = Some out \<longrightarrow> int (n_pages out) \<le> max 0 m) \<and>
   (never_stops w n \<longrightarrow>
      (0 \<le> m \<and> m \<le> 2 ^ 53 \<longrightarrow>
         (\<exists>out. run w (Num n) (Num m) = Some out \<and> int (n_pages out) = m \<and> \<not> ok out \<and>
                err out = None)) \<and>
      (\<not> bounded_budget mp \<longrightarrow> run w (Num n) mp = None))"
proof -
  have a: "\<forall>s. visited w want (Num m) s \<longrightarrow>
         int (pages s) \<le> max 0 m \<and> (m \<le> 2 ^ 53 \<longrightarrow> int (gotos (trace s)) \<le> max 0 m)"
    using visited_pages[of w want m] by blast
  have b: "bounded_budget mp \<longrightarrow> (\<exists>out. run w want mp = Some out)"
    using run_returns[of mp w want] by blast
  have c: "int (n_pages out) \<le> max 0 m" if "run w want (Num m) = Some out" for out
  proof -
    from that obtain r where r: "collect w want (Num m) init_state = Some r"
      and out: "out = report want (Num m) r" by (rule run_SomeE)
    from a final_visited[OF r] have "int (pages (snd r)) \<le> max 0 m" by blast
    with out show ?thesis
      by (cases r; cases "fst r") (auto simp: report_def Let_def split: error.splits)
  qed
  have d: "\<exists>out. run w (Num n) (Num m) = Some out \<and> int (n_pages out) = m \<and> \<not> ok out \<and>
                err out = None"
    if "never_stops w n" and "0 \<le> m \<and> m \<le> 2 ^ 53"
  proof -
    from never_stops_bounded[of w n m] that obtain s' where
      "collect w (Num n) (Num m) init_state = Some (None, s')" "int (pages s') = m"
      "int (length (collected s')) < n" by blast
    then show ?thesis by (simp add: run_def report_def Let_def)
  qed
  have e: "run w (Num n) mp = None" if "never_stops w n" and "\<not> bounded_budget mp"
    using never_stops_unbounded[OF that] by (simp add: run_def)
  from a b c d e show ?thesis by blast
qed

theorem page_budget_witness:
  "never_stops loop_world 2 \<and> bounded_budget (Num 3) \<and> \<not> bounded_budget PosInf \<and>
   map_option n_pages (run loop_world (Num 2) (Num 3)) = Some 3 \<and>
   map_option ok (run loop_world (Num 2) (Num 3)) = Some False \<and>
   run loop_world (Num 2) PosInf = None"
proof -
  have h1: "never_stops loop_world 2" by (rule never_stops_loop_world)
  have h2: "bounded_budget (Num 3)" by (simp add: bounded_budget_def)
  have h3: "\<not> bounded_budget PosInf" by (simp add: bounded_budget_def)
  have h4: "(0::int) \<le> 3 \<and> (3::int) \<le> 2 ^ 53" by simp
  from page_budget[of loop_world "Num 2" 3 "Num 3" 2] h1 h4 obtain out where
    "run loop_world (Num 2) (Num 3) = Some out" "int (n_pages out) = 3" "\<not> ok out"
    by blast
  moreover from page_budget[of loop_world "Num 2" 3 PosInf 2] h1 h3
  have "run loop_world (Num 2) PosInf = None" by blast
  ultimately show ?thesis using h1 h2 h3 by simp
qed

theorem page_budget_counterexample:
  "maxPages (parseArgs [''node'', ''index.js'', ''--count=2'',
                        ''--max-pages='' @ replicate 310 (CHR ''9'')]) = PosInf \<and>
   main loop_world [''node'', ''index.js'', ''--count=2'',
                    ''--max-pages='' @ replicate 310 (CHR ''9'')] = None \<and>
   maxPages (parseArgs [''node'', ''index.js'', ''--count=2'',
                        ''--max-pages=9007199254740994'']) = Num 9007199254740994 \<and>
   main loop_world [''node'', ''index.js'', ''--count=2'', ''--max-pages=9007199254740994'']
     = None"
proof -
  have a: "parseArgs [''node'', ''index.js'', ''--count=2'',
                      ''--max-pages='' @ replicate 310 (CHR ''9'')]
           = \<lparr>count = Num 2, head = False, json = False, maxPages = PosInf\<rparr>"
    by code_simp
  have b: "parseArgs [''node'', ''index.js'', ''--count=2'', ''--max-pages=9007199254740994'']
           = \<lparr>count = Num 2, head = False, json = False, maxPages = Num 9007199254740994\<rparr>"
    by code_simp
  have u: "\<not> bounded_budget PosInf" "\<not> bounded_budget (Num 9007199254740994)"
    by (simp_all add: bounded_budget_def)
  have "run loop_world (Num 2) PosInf = None"
    "run loop_world (Num 2) (Num 9007199254740994) = None"
    using never_stops_unbounded[OF never_stops_loop_world u(1)]
      never_stops_unbounded[OF never_stops_loop_world u(2)]
    by (simp_all add: run_def)
  with a b show ?thesis by (simp add: main_def Let_def)
qed



end
